theory Spec2Isabelle
  imports Complex_Main "HOL-Library.AList"
begin

section \<open>Strings and dictionaries\<close>

text \<open>
  A Python \<open>str\<close> is modelled as a \<^typ>\<open>string\<close>, each \<^typ>\<open>char\<close> standing for
  the code point of the same number (0 to 255). The character tables below are Python's
  own tables restricted to that range; code points above 255 are outside the model.

  A Python \<open>dict\<close> is modelled as an association list in insertion order. Storing under
  a key that is present replaces the value in place, storing under a new key appends the
  pair: this is \<^const>\<open>AList.update\<close>. Reading is \<^const>\<open>map_of\<close>. A list that
  stands for a dictionary has distinct keys.
\<close>

type_synonym ('k, 'v) dict = "('k \<times> 'v) list"


definition code_point :: "char \<Rightarrow> nat" where
  "code_point c = of_char c"

text \<open>\<open>str.lower\<close>, one character at a time.\<close>

definition char_lower :: "char \<Rightarrow> char" where
  "char_lower c =
     (let n = code_point c
      in if (65 \<le> n \<and> n \<le> 90) \<or> (192 \<le> n \<and> n \<le> 222 \<and> n \<noteq> 215)
         then char_of (n + 32) else c)"

definition lower :: "string \<Rightarrow> string" where
  "lower s = map char_lower s"

section \<open>Python values\<close>

text \<open>
  The values that \<open>json.loads\<close> returns, which are also the values that a version map
  can hold: \<open>None\<close> is \<open>JNull\<close> and a string \<open>s\<close> is \<open>JString s\<close>. The
  dictionary of a JSON object is the list of its members in the order of the text, with
  distinct keys. The code below never looks into a number, which stands here as an integer
  or a real.
\<close>

datatype json =
    JNull
  | JBool bool
  | JInt int
  | JFloat real
  | JString string
  | JArray "json list"
  | JObject "(string \<times> json) list"

text \<open>\<open>d.get(key)\<close> for a dictionary of Python values: \<open>None\<close> for a key that is
  missing.\<close>

definition dict_get :: "(string, json) dict \<Rightarrow> string \<Rightarrow> json" where
  "dict_get d key = (case map_of d key of None \<Rightarrow> JNull | Some v \<Rightarrow> v)"

section \<open>service\_mapping.py: the service name reconciler\<close>

text \<open>
  The class attribute \<open>ServiceMapper.SERVICE_NAME_MAPPING\<close>, entry by entry as the
  source writes the literal; the value \<open>None\<close> of Python is \<^term>\<open>None\<close>. The
  literal names \<open>stackgen_notifications\<close> twice. A dictionary literal keeps the value
  written last for a repeated key, so lookups read the list from its end.
\<close>

definition SERVICE_NAME_MAPPING :: "(string \<times> string option) list" where
  "SERVICE_NAME_MAPPING =
     [(''appcd'', Some ''appcd''),
      (''iacgen'', Some ''iac-gen''),
      (''appcdui'', Some ''ui''),
      (''stack_exporter'', Some ''exporter''),
      (''stackgen_vault'', Some ''vault''),
      (''integrations'', Some ''integrations''),
      (''backstage_adapter'', Some ''backstage-adapter''),
      (''infra_catalog_tracker'', Some ''infra-catalog-tracker''),
      (''deployment_manager'', Some ''deployment-manager''),
      (''stackgen_notifications'', Some ''notifications''),
      (''tf_module_service'', Some ''tf-module-service''),
      (''audit_manager'', Some ''audit-manager''),
      (''sgai_orchestration'', Some ''sgai-orchestration''),
      (''stackgen_notifications'', Some ''notifications''),
      (''appcd_analyzer'', None),
      (''appcdvira'', None),
      (''llm_gateway'', None),
      (''sgai_knowledge'', None),
      (''sgai_control'', None),
      (''community_infra_gen'', None),
      (''stackgen_subagents'', None)]"

text \<open>\<open>SERVICE_NAME_MAPPING.get(key)\<close>: \<open>None\<close> for a key that is missing and for
  a key stored with the value \<open>None\<close> alike.\<close>

definition mapping_get :: "string \<Rightarrow> string option" where
  "mapping_get key =
     (case map_of (rev SERVICE_NAME_MAPPING) key of
        None \<Rightarrow> None
      | Some mapped_name \<Rightarrow> mapped_name)"

definition map_env_to_deployed :: "string \<Rightarrow> string option" where
  "map_env_to_deployed env_service_name =
     (case mapping_get (lower env_service_name) of
        None \<Rightarrow> None
      | Some mapped_name \<Rightarrow>
          Some (if mapped_name \<noteq> [] then mapped_name else lower env_service_name))"

text \<open>
  One entry of the unified comparison: the four-key dictionary of the source. A version
  is a Python value, \<^term>\<open>JNull\<close> when it is \<open>None\<close>.

  The versions of the \<open>.env\<close> side are strings: \<open>parse_env_content\<close> stores nothing else.
  The versions of the deployed side are the values that \<open>parse_version_json\<close> stores,
  which the source does not test in the branch \<open>versions[key.lower()] = value['version']\<close>:
  they can be any value of the JSON text, \<open>None\<close> included, and \<open>main\<close> passes them to
  \<open>compare_versions\<close> as they are.
\<close>

record comparison =
  env_version :: json
  deployed_version :: json
  env_name :: "string option"
  deployed_name :: "string option"

text \<open>The body of the first loop of \<open>create_unified_comparison\<close>.\<close>

definition env_step ::
  "(string, json) dict \<Rightarrow> string \<times> string \<Rightarrow> (string, comparison) dict
     \<Rightarrow> (string, comparison) dict" where
  "env_step deployed_versions = (\<lambda>(env_service, env_ver) unified.
     (case map_env_to_deployed env_service of
        None \<Rightarrow>
          AList.update env_service
            \<lparr>env_version = JString env_ver, deployed_version = JNull,
             env_name = Some env_service, deployed_name = None\<rparr> unified
      | Some deployed_service \<Rightarrow>
          AList.update env_service
            \<lparr>env_version = JString env_ver,
             deployed_version = dict_get deployed_versions deployed_service,
             env_name = Some env_service, deployed_name = Some deployed_service\<rparr> unified))"

text \<open>The body of the second loop: the deployed names that some key of the \<open>.env\<close>
  side maps to. \<open>if deployed_service:\<close> is Python's truth test, false for \<open>None\<close> and
  for the empty string.\<close>

definition mapped_step :: "string \<Rightarrow> string set \<Rightarrow> string set" where
  "mapped_step env_service mapped_deployed_services =
     (case map_env_to_deployed env_service of
        None \<Rightarrow> mapped_deployed_services
      | Some deployed_service \<Rightarrow>
          if deployed_service \<noteq> [] then insert deployed_service mapped_deployed_services
          else mapped_deployed_services)"

text \<open>The body of the third loop.\<close>

definition deployed_step ::
  "string set \<Rightarrow> string \<times> json \<Rightarrow> (string, comparison) dict
     \<Rightarrow> (string, comparison) dict" where
  "deployed_step mapped_deployed_services = (\<lambda>(deployed_service, deployed_ver) unified.
     if deployed_service \<notin> mapped_deployed_services
     then AList.update (''deployed_only_'' @ deployed_service)
            \<lparr>env_version = JNull, deployed_version = deployed_ver,
             env_name = None, deployed_name = Some deployed_service\<rparr> unified
     else unified)"

definition create_unified_comparison ::
  "(string, string) dict \<Rightarrow> (string, json) dict \<Rightarrow> (string, comparison) dict" where
  "create_unified_comparison env_versions deployed_versions =
     (let unified = fold (env_step deployed_versions) env_versions [];
          mapped_deployed_services = fold mapped_step (map fst env_versions) {}
      in fold (deployed_step mapped_deployed_services) deployed_versions unified)"

section \<open>compare\_versions.py: classification\<close>

record comparison_results =
  differences :: "(string, comparison) dict"
  matches :: "(string, comparison) dict"
  env_only :: "(string, comparison) dict"
  deployed_only :: "(string, comparison) dict"

text \<open>The body of the loop of \<open>compare_versions\<close>, with the order of its tests. Where
  the test \<open>env_ver != deployed_ver\<close> is reached in a record of the unified comparison,
  \<open>env_ver\<close> is a string, and a string equals no Python value but the same string.\<close>

definition classify :: "string \<times> comparison \<Rightarrow> comparison_results \<Rightarrow> comparison_results" where
  "classify = (\<lambda>(service, data) results.
     (let env_ver = env_version data; deployed_ver = deployed_version data
      in if env_ver = JNull
         then results\<lparr>deployed_only := AList.update service data (deployed_only results)\<rparr>
         else if deployed_ver = JNull
         then results\<lparr>env_only := AList.update service data (env_only results)\<rparr>
         else if env_ver \<noteq> deployed_ver
         then results\<lparr>differences := AList.update service data (differences results)\<rparr>
         else results\<lparr>matches := AList.update service data (matches results)\<rparr>))"

definition compare_versions ::
  "(string, json) dict \<Rightarrow> (string, string) dict \<Rightarrow> comparison_results \<times> bool" where
  "compare_versions deployed_versions repo_versions =
     (let unified_comparison = create_unified_comparison repo_versions deployed_versions;
          results = fold classify unified_comparison
            \<lparr>differences = [], matches = [], env_only = [], deployed_only = []\<rparr>;
          has_differences =
            (length (differences results) > 0 \<or> length (env_only results) > 0
             \<or> length (deployed_only results) > 0)
      in (results, has_differences))"

text \<open>The entries that the loops of \<open>create_unified_comparison\<close> store: for a key
  of the \<open>.env\<close> side, and for a key of the deployed side. They name the two record
  literals of the source for the statements below.\<close>

definition env_record :: "(string, json) dict \<Rightarrow> string \<Rightarrow> string \<Rightarrow> comparison" where
  "env_record dep k v =
     (case map_env_to_deployed k of
        None \<Rightarrow>
          \<lparr>env_version = JString v, deployed_version = JNull,
           env_name = Some k, deployed_name = None\<rparr>
      | Some d \<Rightarrow>
          \<lparr>env_version = JString v, deployed_version = dict_get dep d,
           env_name = Some k, deployed_name = Some d\<rparr>)"

definition deployed_record :: "string \<Rightarrow> json \<Rightarrow> comparison" where
  "deployed_record d v =
     \<lparr>env_version = JNull, deployed_version = v, env_name = None, deployed_name = Some d\<rparr>"

definition mapped_of :: "(string, string) dict \<Rightarrow> string set" where
  "mapped_of env = {d. \<exists>k\<in>fst ` set env. map_env_to_deployed k = Some d}"

text \<open>
  The four classes of the specification, in its words: a record is matched when both
  versions are present and equal, differing when both are present and unequal, env-only
  when the deployed side is absent, and deployed-only when the env side is absent. A
  version is absent when it is \<open>None\<close>.
\<close>

definition spec_matched :: "comparison \<Rightarrow> bool" where
  "spec_matched d =
     (env_version d \<noteq> JNull \<and> deployed_version d \<noteq> JNull
      \<and> env_version d = deployed_version d)"

definition spec_differing :: "comparison \<Rightarrow> bool" where
  "spec_differing d =
     (env_version d \<noteq> JNull \<and> deployed_version d \<noteq> JNull
      \<and> env_version d \<noteq> deployed_version d)"

definition spec_env_only :: "comparison \<Rightarrow> bool" where
  "spec_env_only d = (deployed_version d = JNull)"

definition spec_deployed_only :: "comparison \<Rightarrow> bool" where
  "spec_deployed_only d = (env_version d = JNull)"

text \<open>The branch that the loop of \<open>compare_versions\<close> takes for a record, and the
  keys that a result holds: both serve the proofs only.\<close>

datatype bucket = Differing | Matched | Env_Only | Deployed_Only

definition bucket_of :: "comparison \<Rightarrow> bucket" where
  "bucket_of d =
     (if env_version d = JNull then Deployed_Only
      else if deployed_version d = JNull then Env_Only
      else if env_version d \<noteq> deployed_version d then Differing else Matched)"

definition keys_of :: "comparison_results \<Rightarrow> string set" where
  "keys_of r = fst ` set (differences r) \<union> fst ` set (matches r)
     \<union> fst ` set (env_only r) \<union> fst ` set (deployed_only r)"

text \<open>A small pair of inputs for the examples.\<close>

definition example_env :: "(string, string) dict" where
  "example_env = [(''appcd'', ''v0.65.4''), (''llm_gateway'', ''v0.6.3''), (''iacgen'', ''v0.52.6'')]"

definition example_deployed :: "(string, json) dict" where
  "example_deployed =
     [(''appcd'', JString ''v2025.7.10''), (''iac-gen'', JString ''v0.52.6''),
      (''exporter'', JString ''v0.9.9'')]"

section \<open>Python's string operations\<close>

text \<open>\<open>str.isspace\<close> for one character; \<open>str.strip()\<close> and the class \<open>\s\<close> of
  \<open>re\<close> use the same table.\<close>

definition is_space :: "char \<Rightarrow> bool" where
  "is_space c =
     (let n = code_point c
      in (9 \<le> n \<and> n \<le> 13) \<or> (28 \<le> n \<and> n \<le> 32) \<or> n = 133 \<or> n = 160)"

definition lstrip :: "string \<Rightarrow> string" where
  "lstrip s = dropWhile is_space s"

definition rstrip :: "string \<Rightarrow> string" where
  "rstrip s = rev (dropWhile is_space (rev s))"

definition strip :: "string \<Rightarrow> string" where
  "strip s = rstrip (lstrip s)"

text \<open>\<open>s.startswith(p)\<close>.\<close>

definition startswith :: "string \<Rightarrow> string \<Rightarrow> bool" where
  "startswith s p = (take (length p) s = p)"

text \<open>\<open>sub in s\<close> for strings.\<close>

fun contains :: "string \<Rightarrow> string \<Rightarrow> bool" where
  "contains [] sub = (sub = [])"
| "contains (c # cs) sub = (startswith (c # cs) sub \<or> contains cs sub)"

text \<open>\<open>s.split(sep)\<close> for a separator of one character: the result is never empty, and
  the empty string splits into one empty field.\<close>

fun split :: "char \<Rightarrow> string \<Rightarrow> string list" where
  "split sep [] = [[]]"
| "split sep (c # cs) =
     (if c = sep then [] # split sep cs
      else (case split sep cs of [] \<Rightarrow> [[c]] | w # ws \<Rightarrow> (c # w) # ws))"

section \<open>Python's \<open>re\<close>: the fragment that the patterns of the repository use\<close>

text \<open>
  Every pattern of the repository is a sequence of literals, of greedy repetitions of a
  single character class (\<open>c*\<close>, \<open>c+\<close>, \<open>c?\<close>, \<open>c{m,n}\<close>), and of alternations of
  literals, some of them inside capturing groups that are not nested. A \<^emph>\<open>piece\<close> is one
  such element; an \<^emph>\<open>item\<close> is a piece outside any group or a capturing group around a
  sequence of pieces.

  The matcher is the backtracking matcher of \<open>re\<close>, written as the list of all the ways
  a pattern matches a prefix of the input, in the order in which backtracking finds
  them: a greedy repetition tries its longest run first, then one character less and so
  on down to its minimum; an alternation tries its branches from left to right. The
  match that \<open>re\<close> reports is the first of the list. With the flag \<open>IGNORECASE\<close> a literal
  matches a character of the same lower case; the character classes used with that flag
  (\<open>\w\<close>, \<open>\s\<close> and negated sets of characters without case) are the same with and
  without it.
\<close>

datatype piece =
    Str string
  | Rep "char \<Rightarrow> bool" nat "nat option"
  | Alts "string list"

datatype item = Plain piece | Group "piece list"

abbreviation Star :: "(char \<Rightarrow> bool) \<Rightarrow> piece" where
  "Star cls \<equiv> Rep cls 0 None"

abbreviation Plus :: "(char \<Rightarrow> bool) \<Rightarrow> piece" where
  "Plus cls \<equiv> Rep cls 1 None"

abbreviation Opt :: "(char \<Rightarrow> bool) \<Rightarrow> piece" where
  "Opt cls \<equiv> Rep cls 0 (Some 1)"

definition lit_match :: "bool \<Rightarrow> char \<Rightarrow> char \<Rightarrow> bool" where
  "lit_match ignorecase p c = (if ignorecase then char_lower c = char_lower p else c = p)"

text \<open>A literal string at the start of the input: the text it matches and the rest.\<close>

definition str_paths :: "bool \<Rightarrow> string \<Rightarrow> string \<Rightarrow> (string \<times> string) list" where
  "str_paths ignorecase w s =
     (if length w \<le> length s \<and> list_all2 (lit_match ignorecase) w (take (length w) s)
      then [(take (length w) s, drop (length w) s)] else [])"

fun piece_paths :: "bool \<Rightarrow> piece \<Rightarrow> string \<Rightarrow> (string \<times> string) list" where
  "piece_paths ignorecase (Str w) s = str_paths ignorecase w s"
| "piece_paths ignorecase (Rep cls lo hi) s =
     (let n = length (takeWhile cls s);
          m = (case hi of None \<Rightarrow> n | Some h \<Rightarrow> min h n)
      in map (\<lambda>k. (take k s, drop k s)) (rev [lo..<Suc m]))"
| "piece_paths ignorecase (Alts ws) s = concat (map (\<lambda>w. str_paths ignorecase w s) ws)"

fun seq_paths :: "bool \<Rightarrow> piece list \<Rightarrow> string \<Rightarrow> (string \<times> string) list" where
  "seq_paths ignorecase [] s = [([], s)]"
| "seq_paths ignorecase (pc # pcs) s =
     concat (map (\<lambda>(m, r). map (\<lambda>(m', r'). (m @ m', r')) (seq_paths ignorecase pcs r))
       (piece_paths ignorecase pc s))"

text \<open>All the matches of a pattern at the start of the input: the texts of its groups and
  the rest of the input after the match.\<close>

fun paths :: "bool \<Rightarrow> item list \<Rightarrow> string \<Rightarrow> (string list \<times> string) list" where
  "paths ignorecase [] s = [([], s)]"
| "paths ignorecase (Plain pc # its) s =
     concat (map (\<lambda>(m, r). paths ignorecase its r) (piece_paths ignorecase pc s))"
| "paths ignorecase (Group pcs # its) s =
     concat (map (\<lambda>(m, r). map (\<lambda>(gs, r'). (m # gs, r')) (paths ignorecase its r))
       (seq_paths ignorecase pcs s))"

text \<open>\<open>re.match(pattern, s)\<close>: \<open>None\<close>, or the groups of the first match and the input that
  follows it.\<close>

definition re_match :: "bool \<Rightarrow> item list \<Rightarrow> string \<Rightarrow> (string list \<times> string) option" where
  "re_match ignorecase pattern s =
     (case paths ignorecase pattern s of [] \<Rightarrow> None | x # _ \<Rightarrow> Some x)"

text \<open>
  \<open>pattern.findall(s)\<close>, as the list of the groups of each match: the scan tries the
  pattern at the current position, after a match it goes on where the match ended, and
  after a failure (or a match of no character) one character further.
\<close>

function findall :: "bool \<Rightarrow> item list \<Rightarrow> string \<Rightarrow> string list list" where
  "findall ignorecase pattern s =
     (case re_match ignorecase pattern s of
        Some (groups, rest) \<Rightarrow>
          groups # (if length rest < length s then findall ignorecase pattern rest
                    else (case s of [] \<Rightarrow> [] | _ # t \<Rightarrow> findall ignorecase pattern t))
      | None \<Rightarrow> (case s of [] \<Rightarrow> [] | _ # t \<Rightarrow> findall ignorecase pattern t))"
  by pat_completeness auto
termination
  by (relation "measure (\<lambda>(ignorecase, pattern, s). length s)") auto

text \<open>The character classes \<open>\w\<close>, \<open>\d\<close> and \<open>[A-Z]\<close>.\<close>

definition is_word :: "char \<Rightarrow> bool" where
  "is_word c =
     (let n = code_point c
      in (48 \<le> n \<and> n \<le> 57) \<or> (65 \<le> n \<and> n \<le> 90) \<or> n = 95 \<or> (97 \<le> n \<and> n \<le> 122)
         \<or> n \<in> {170, 178, 179, 181, 185, 186, 188, 189, 190}
         \<or> (192 \<le> n \<and> n \<le> 214) \<or> (216 \<le> n \<and> n \<le> 246) \<or> 248 \<le> n)"

definition is_digit :: "char \<Rightarrow> bool" where
  "is_digit c = (let n = code_point c in 48 \<le> n \<and> n \<le> 57)"

definition is_upper_AZ :: "char \<Rightarrow> bool" where
  "is_upper_AZ c = (let n = code_point c in 65 \<le> n \<and> n \<le> 90)"

section \<open>compare\_versions.py: parsing the \<open>.env\<close> text\<close>

text \<open>The sets \<open>["\']\<close>, \<open>[^\s"\']\<close> and \<open>[^:]\<close> of the patterns.\<close>

definition is_quote :: "char \<Rightarrow> bool" where
  "is_quote c = (c = CHR 0x22 \<or> c = CHR 0x27)"

definition is_value_char :: "char \<Rightarrow> bool" where
  "is_value_char c = (\<not> is_space c \<and> c \<noteq> CHR 0x22 \<and> c \<noteq> CHR 0x27)"

definition not_colon :: "char \<Rightarrow> bool" where
  "not_colon c = (c \<noteq> CHR '':'')"

text \<open>
  The list \<open>version_patterns\<close> of \<open>parse_env_content\<close>, in its order:
  \<^verbatim>\<open>(\w+)_VERSION\s*=\s*["\']?([^\s"\']+)["\']?\<close>,
  \<^verbatim>\<open>VERSION_(\w+)\s*=\s*["\']?([^\s"\']+)["\']?\<close>,
  \<^verbatim>\<open>(\w+)_TAG\s*=\s*["\']?([^\s"\']+)["\']?\<close>,
  \<^verbatim>\<open>IMAGE_(\w+)\s*=\s*["\']?[^:]+:([^\s"\']+)["\']?\<close> and
  \<^verbatim>\<open>(SGAI_ORCHESTRATION|STACKGEN_NOTIFICATIONS|APPCD_ANALYZER|SGAI_KNOWLEDGE|SGAI_CONTROL)\s*=\s*["\']?([^\s"\']+)["\']?\<close>.
\<close>

definition version_patterns :: "item list list" where
  "version_patterns =
     [[Group [Plus is_word], Plain (Str ''_VERSION''), Plain (Star is_space), Plain (Str ''=''),
       Plain (Star is_space), Plain (Opt is_quote), Group [Plus is_value_char],
       Plain (Opt is_quote)],
      [Plain (Str ''VERSION_''), Group [Plus is_word], Plain (Star is_space), Plain (Str ''=''),
       Plain (Star is_space), Plain (Opt is_quote), Group [Plus is_value_char],
       Plain (Opt is_quote)],
      [Group [Plus is_word], Plain (Str ''_TAG''), Plain (Star is_space), Plain (Str ''=''),
       Plain (Star is_space), Plain (Opt is_quote), Group [Plus is_value_char],
       Plain (Opt is_quote)],
      [Plain (Str ''IMAGE_''), Group [Plus is_word], Plain (Star is_space), Plain (Str ''=''),
       Plain (Star is_space), Plain (Opt is_quote), Plain (Plus not_colon), Plain (Str '':''),
       Group [Plus is_value_char], Plain (Opt is_quote)],
      [Group [Alts [''SGAI_ORCHESTRATION'', ''STACKGEN_NOTIFICATIONS'', ''APPCD_ANALYZER'',
         ''SGAI_KNOWLEDGE'', ''SGAI_CONTROL'']],
       Plain (Star is_space), Plain (Str ''=''),
       Plain (Star is_space), Plain (Opt is_quote), Group [Plus is_value_char],
       Plain (Opt is_quote)]]"

text \<open>
  The inner loop \<open>for pattern in version_patterns\<close> for one line, every match made with
  \<open>re.IGNORECASE\<close>. The \<open>break\<close> stands inside the test \<open>len(match.groups()) == 2\<close>: a
  match with another number of groups stores nothing and the loop goes on to the next
  pattern. \<open>match.group(1)\<close> and \<open>match.group(2)\<close> are read under that test only, and no
  group of these patterns is optional, so both are strings.
\<close>

fun try_patterns ::
  "item list list \<Rightarrow> string \<Rightarrow> (string, string) dict \<Rightarrow> (string, string) dict" where
  "try_patterns [] line versions = versions"
| "try_patterns (pattern # rest) line versions =
     (case re_match True pattern line of
        None \<Rightarrow> try_patterns rest line versions
      | Some (groups, _) \<Rightarrow>
          if length groups = 2
          then (let service_name = lower (groups ! 0); version = strip (groups ! 1)
                in AList.update service_name version versions)
          else try_patterns rest line versions)"

text \<open>The body of the outer loop \<open>for line in env_content.split('\n')\<close>.\<close>

definition process_line :: "string \<Rightarrow> (string, string) dict \<Rightarrow> (string, string) dict" where
  "process_line raw versions =
     (let line = strip raw
      in if line = [] \<or> startswith line ''#'' then versions
         else try_patterns version_patterns line versions)"

definition parse_env_content :: "string \<Rightarrow> (string, string) dict" where
  "parse_env_content env_content = fold process_line (split (CHR 0x0A) env_content) []"

section \<open>fetchTicketChangesInBuildsForRepo.py: the ticket extractor\<close>

text \<open>\<open>self.ticket_pattern\<close>, compiled without flags from
  \<^verbatim>\<open>\[([A-Z]{2,6}-\d{1,6})\]\<close>.\<close>

definition ticket_pattern :: "item list" where
  "ticket_pattern =
     [Plain (Str ''[''),
      Group [Rep is_upper_AZ 2 (Some 6), Str ''-'', Rep is_digit 1 (Some 6)],
      Plain (Str '']'')]"

text \<open>\<open>extract_tickets_from_text\<close>. The pattern has one group, so \<open>findall\<close> returns the
  text of that group for each match; the loop adds each to a set.\<close>

definition extract_tickets_from_text :: "string \<Rightarrow> string set" where
  "extract_tickets_from_text text =
     (let matches = map (\<lambda>groups. groups ! 0) (findall False ticket_pattern text)
      in fold insert matches {})"

text \<open>
  The tickets of a text in the words of the specification: the strings made of 2 to 6
  upper-case letters, a hyphen and 1 to 6 digits that stand in the text between square
  brackets.
\<close>

definition is_ticket :: "string \<Rightarrow> bool" where
  "is_ticket t =
     (\<exists>prefix number. t = prefix @ ''-'' @ number
        \<and> 2 \<le> length prefix \<and> length prefix \<le> 6 \<and> list_all is_upper_AZ prefix
        \<and> 1 \<le> length number \<and> length number \<le> 6 \<and> list_all is_digit number)"

definition bracketed_tickets :: "string \<Rightarrow> string set" where
  "bracketed_tickets text =
     {t. is_ticket t \<and> (\<exists>before after. text = before @ ''['' @ t @ '']'' @ after)}"

section \<open>compare\_versions.py: parsing the text of \<open>version.json\<close>\<close>

datatype error = JSONDecodeError

text \<open>The inner loop over the members of a nested object that has no member
  \<open>version\<close>.\<close>

definition sub_step :: "string \<Rightarrow> string \<times> json \<Rightarrow> (string, json) dict \<Rightarrow> (string, json) dict" where
  "sub_step key = (\<lambda>(sub_key, sub_value) versions.
     (case sub_value of
        JString s \<Rightarrow>
          if contains (lower sub_key) ''version''
          then AList.update (lower key @ ''_'' @ lower sub_key) sub_value versions
          else versions
      | _ \<Rightarrow> versions))"

text \<open>The body of the loop \<open>for key, value in data.items()\<close>.\<close>

definition item_step :: "string \<times> json \<Rightarrow> (string, json) dict \<Rightarrow> (string, json) dict" where
  "item_step = (\<lambda>(key, value) versions.
     (case value of
        JString s \<Rightarrow> AList.update (lower key) value versions
      | JObject members \<Rightarrow>
          (case map_of members ''version'' of
             Some version \<Rightarrow> AList.update (lower key) version versions
           | None \<Rightarrow> fold (sub_step key) members versions)
      | _ \<Rightarrow> versions))"

text \<open>
  \<open>parse_version_json\<close>. \<open>json.loads\<close> belongs to Python's standard library and is a
  parameter here: it returns the decoded value, or raises \<open>JSONDecodeError\<close>, which the
  \<open>except\<close> clause of the source catches. The values stored in the result are the values
  found in the JSON text, strings or not.
\<close>

definition parse_version_json ::
  "(string \<Rightarrow> error + json) \<Rightarrow> string \<Rightarrow> (string, json) dict" where
  "parse_version_json json_loads version_content =
     (case json_loads version_content of
        Inr data \<Rightarrow>
          (case data of
             JObject members \<Rightarrow> fold item_step members []
           | _ \<Rightarrow> [])
      | Inl JSONDecodeError \<Rightarrow> [(''content'', JString (strip version_content))])"

section \<open>What a pattern matches\<close>

text \<open>
  The declarative reading of the matcher, for the proofs: the texts that a piece, a
  sequence of pieces and a whole pattern (with the texts of its groups) match. The lemma
  \<open>paths_iff\<close> shows that the matcher finds exactly these.
\<close>

fun piece_lang :: "bool \<Rightarrow> piece \<Rightarrow> string \<Rightarrow> bool" where
  "piece_lang ic (Str w) m = list_all2 (lit_match ic) w m"
| "piece_lang ic (Rep cls lo hi) m =
     (list_all cls m \<and> lo \<le> length m \<and> (case hi of None \<Rightarrow> True | Some h \<Rightarrow> length m \<le> h))"
| "piece_lang ic (Alts ws) m = (\<exists>w\<in>set ws. list_all2 (lit_match ic) w m)"

fun seq_lang :: "bool \<Rightarrow> piece list \<Rightarrow> string \<Rightarrow> bool" where
  "seq_lang ic [] m = (m = [])"
| "seq_lang ic (pc # pcs) m =
     (\<exists>m1 m2. m = m1 @ m2 \<and> piece_lang ic pc m1 \<and> seq_lang ic pcs m2)"

fun items_lang :: "bool \<Rightarrow> item list \<Rightarrow> string \<Rightarrow> string list \<Rightarrow> bool" where
  "items_lang ic [] m gs = (m = [] \<and> gs = [])"
| "items_lang ic (Plain pc # its) m gs =
     (\<exists>m1 m2. m = m1 @ m2 \<and> piece_lang ic pc m1 \<and> items_lang ic its m2 gs)"
| "items_lang ic (Group pcs # its) m gs =
     (\<exists>m1 m2 gs'. m = m1 @ m2 \<and> gs = m1 # gs' \<and> seq_lang ic pcs m1 \<and> items_lang ic its m2 gs')"

text \<open>The groups of a pattern, in its order.\<close>

fun groups_of :: "item list \<Rightarrow> piece list list" where
  "groups_of [] = []"
| "groups_of (Plain pc # its) = groups_of its"
| "groups_of (Group pcs # its) = pcs # groups_of its"

text \<open>The entry that a line of the \<open>.env\<close> text gives: the line is neither empty nor a
  comment, and some pattern of the list matches it with the groups \<open>service\<close> and \<open>v\<close>.\<close>

definition line_entry :: "string \<Rightarrow> string \<Rightarrow> string \<Rightarrow> bool" where
  "line_entry raw k v \<longleftrightarrow>
     (\<exists>p\<in>set version_patterns. \<exists>service rest.
        strip raw \<noteq> [] \<and> \<not> startswith (strip raw) ''#''
        \<and> re_match True p (strip raw) = Some ([service, v], rest) \<and> k = lower service)"

section \<open>Properties of the reconciler\<close>

lemma update_fresh: "k \<notin> fst ` set al \<Longrightarrow> AList.update k v al = al @ [(k, v)]"
  by (induction al) auto

lemma set_update_subset: "set (AList.update k v al) \<subseteq> insert (k, v) (set al)"
  by (induction al) auto

lemma table_values_nonempty: "(k, Some m) \<in> set SERVICE_NAME_MAPPING \<Longrightarrow> m \<noteq> []"
  by (auto simp: SERVICE_NAME_MAPPING_def)

lemma mapping_get_nonempty: "mapping_get k = Some m \<Longrightarrow> m \<noteq> []"
  unfolding mapping_get_def
  using table_values_nonempty
  by (fastforce split: option.splits dest!: map_of_SomeD)

lemma map_env_to_deployed_nonempty: "map_env_to_deployed k = Some d \<Longrightarrow> d \<noteq> []"
  unfolding map_env_to_deployed_def
  by (auto split: option.splits if_splits dest: mapping_get_nonempty)

lemma env_step_eq: "env_step dep (k, v) u = AList.update k (env_record dep k v) u"
  by (simp add: env_step_def env_record_def split: option.splits)

lemma deployed_step_eq:
  "deployed_step M (d, v) u =
     (if d \<notin> M then AList.update (''deployed_only_'' @ d) (deployed_record d v) u else u)"
  by (simp add: deployed_step_def deployed_record_def)

lemma fold_mapped_step:
  "fold mapped_step ks S = S \<union> {d. \<exists>k\<in>set ks. map_env_to_deployed k = Some d}"
proof (induction ks arbitrary: S)
  case Nil
  then show ?case by simp
next
  case (Cons k ks)
  have "mapped_step k S = S \<union> {d. map_env_to_deployed k = Some d}"
    by (auto simp: mapped_step_def split: option.splits dest: map_env_to_deployed_nonempty)
  then show ?case using Cons.IH [of "mapped_step k S"] by auto
qed

lemma env_fold_other:
  "k \<notin> fst ` set env \<Longrightarrow> map_of (fold (env_step dep) env u) k = map_of u k"
  by (induction env arbitrary: u) (auto simp: env_step_eq update_conv')

lemma env_fold_lookup:
  "distinct (map fst env) \<Longrightarrow> (k, v) \<in> set env \<Longrightarrow>
     map_of (fold (env_step dep) env u) k = Some (env_record dep k v)"
proof (induction env arbitrary: u)
  case Nil
  then show ?case by simp
next
  case (Cons x env)
  show ?case
  proof (cases "x = (k, v)")
    case True
    with Cons.prems have "k \<notin> fst ` set env" by auto
    with True show ?thesis by (simp add: env_fold_other env_step_eq update_conv')
  next
    case False
    with Cons.prems have "(k, v) \<in> set env" "distinct (map fst env)" by auto
    then show ?thesis using Cons.IH by simp
  qed
qed

lemma deployed_fold_other:
  "\<forall>(d, v)\<in>set dep. d \<in> M \<or> ''deployed_only_'' @ d \<noteq> s \<Longrightarrow>
     map_of (fold (deployed_step M) dep u) s = map_of u s"
  by (induction dep arbitrary: u) (auto simp: deployed_step_eq update_conv')

lemma deployed_fold_lookup:
  "distinct (map fst dep) \<Longrightarrow> (d, v) \<in> set dep \<Longrightarrow> d \<notin> M \<Longrightarrow>
     map_of (fold (deployed_step M) dep u) (''deployed_only_'' @ d) = Some (deployed_record d v)"
proof (induction dep arbitrary: u)
  case Nil
  then show ?case by simp
next
  case (Cons x dep)
  show ?case
  proof (cases "x = (d, v)")
    case True
    with Cons.prems have "d \<notin> fst ` set dep" by auto
    then have "\<forall>(d', v')\<in>set dep. d' \<in> M \<or> ''deployed_only_'' @ d' \<noteq> ''deployed_only_'' @ d"
      by force
    with True Cons.prems(3) show ?thesis
      by (simp add: deployed_fold_other deployed_step_eq update_conv' del: append.simps)
  next
    case False
    with Cons.prems have "(d, v) \<in> set dep" "distinct (map fst dep)" by auto
    then show ?thesis using Cons.IH Cons.prems(3) by simp
  qed
qed

lemma env_fold_distinct:
  "distinct (map fst u) \<Longrightarrow> distinct (map fst (fold (env_step dep) env u))"
  by (induction env arbitrary: u) (auto simp: env_step_eq distinct_update)

lemma deployed_fold_distinct:
  "distinct (map fst u) \<Longrightarrow> distinct (map fst (fold (deployed_step M) dep u))"
  by (induction dep arbitrary: u) (auto simp: deployed_step_eq distinct_update)

lemma unified_distinct: "distinct (map fst (create_unified_comparison env dep))"
  by (simp add: create_unified_comparison_def Let_def env_fold_distinct deployed_fold_distinct)

lemma env_fold_set:
  "(s, r) \<in> set (fold (env_step dep) env u) \<Longrightarrow>
     (s, r) \<in> set u \<or> (\<exists>v. (s, v) \<in> set env \<and> r = env_record dep s v)"
proof (induction env arbitrary: u)
  case Nil
  then show ?case by simp
next
  case (Cons x env)
  obtain k v where x: "x = (k, v)" by (cases x)
  from Cons.prems have "(s, r) \<in> set (fold (env_step dep) env (AList.update k (env_record dep k v) u))"
    by (simp add: x env_step_eq)
  from Cons.IH [OF this] show ?case
    using set_update_subset [of k "env_record dep k v" u] x by auto
qed

lemma deployed_fold_set:
  "(s, r) \<in> set (fold (deployed_step M) dep u) \<Longrightarrow>
     (s, r) \<in> set u \<or>
     (\<exists>d v. (d, v) \<in> set dep \<and> d \<notin> M \<and> s = ''deployed_only_'' @ d \<and> r = deployed_record d v)"
proof (induction dep arbitrary: u)
  case Nil
  then show ?case by simp
next
  case (Cons x dep)
  obtain d v where x: "x = (d, v)" by (cases x)
  show ?case
  proof (cases "d \<in> M")
    case True
    with Cons.prems have "(s, r) \<in> set (fold (deployed_step M) dep u)"
      by (simp add: x deployed_step_eq)
    from Cons.IH [OF this] show ?thesis by auto
  next
    case False
    with Cons.prems have "(s, r) \<in> set (fold (deployed_step M) dep
        (AList.update (''deployed_only_'' @ d) (deployed_record d v) u))"
      by (simp add: x deployed_step_eq)
    from Cons.IH [OF this] show ?thesis
      using set_update_subset [of "''deployed_only_'' @ d" "deployed_record d v" u] x False
      by auto
  qed
qed

lemma unified_set:
  assumes "(s, r) \<in> set (create_unified_comparison env dep)"
  shows "(\<exists>v. (s, v) \<in> set env \<and> r = env_record dep s v) \<or>
     (\<exists>d v. (d, v) \<in> set dep \<and> d \<notin> mapped_of env \<and> s = ''deployed_only_'' @ d \<and> r = deployed_record d v)"
proof -
  let ?M = "fold mapped_step (map fst env) {}"
  have M: "?M = mapped_of env" by (simp add: fold_mapped_step mapped_of_def)
  from assms have "(s, r) \<in> set (fold (deployed_step ?M) dep (fold (env_step dep) env []))"
    by (simp add: create_unified_comparison_def Let_def)
  from deployed_fold_set [OF this] show ?thesis
    using env_fold_set [of s r dep env "[]"] M by auto
qed

lemma fold_classify:
  "distinct (map fst xs) \<Longrightarrow> fst ` set xs \<inter> keys_of r = {} \<Longrightarrow>
   fold classify xs r =
     \<lparr>differences = differences r @ filter (\<lambda>x. bucket_of (snd x) = Differing) xs,
      matches = matches r @ filter (\<lambda>x. bucket_of (snd x) = Matched) xs,
      env_only = env_only r @ filter (\<lambda>x. bucket_of (snd x) = Env_Only) xs,
      deployed_only = deployed_only r @ filter (\<lambda>x. bucket_of (snd x) = Deployed_Only) xs\<rparr>"
proof (induction xs arbitrary: r)
  case Nil
  then show ?case by simp
next
  case (Cons x xs)
  obtain s d where x: "x = (s, d)" by (cases x)
  from Cons.prems have fresh: "s \<notin> keys_of r" and dist: "distinct (map fst xs)"
    and s: "s \<notin> fst ` set xs" and disj: "fst ` set xs \<inter> keys_of r = {}"
    by (auto simp: x)
  let ?r = "classify (s, d) r"
  have keys: "keys_of ?r = insert s (keys_of r)"
    by (auto simp: classify_def keys_of_def Let_def dom_update)
  with s disj have "fst ` set xs \<inter> keys_of ?r = {}" by auto
  from Cons.IH [OF dist this] have IH: "fold classify xs ?r = 
     \<lparr>differences = differences ?r @ filter (\<lambda>x. bucket_of (snd x) = Differing) xs,
      matches = matches ?r @ filter (\<lambda>x. bucket_of (snd x) = Matched) xs,
      env_only = env_only ?r @ filter (\<lambda>x. bucket_of (snd x) = Env_Only) xs,
      deployed_only = deployed_only ?r @ filter (\<lambda>x. bucket_of (snd x) = Deployed_Only) xs\<rparr>" .
  from fresh have f: "s \<notin> fst ` set (differences r)" "s \<notin> fst ` set (matches r)"
    "s \<notin> fst ` set (env_only r)" "s \<notin> fst ` set (deployed_only r)"
    by (auto simp: keys_of_def)
  have step: "?r = \<lparr>differences = differences r @ filter (\<lambda>x. bucket_of (snd x) = Differing) [(s, d)],
      matches = matches r @ filter (\<lambda>x. bucket_of (snd x) = Matched) [(s, d)],
      env_only = env_only r @ filter (\<lambda>x. bucket_of (snd x) = Env_Only) [(s, d)],
      deployed_only = deployed_only r @ filter (\<lambda>x. bucket_of (snd x) = Deployed_Only) [(s, d)]\<rparr>"
    using f by (simp add: classify_def Let_def bucket_of_def update_fresh)
  show ?case
    unfolding x fold_simps IH by (simp add: step)
qed

lemma compare_versions_buckets:
  "fst (compare_versions dep env) =
     \<lparr>differences = filter (\<lambda>x. bucket_of (snd x) = Differing) (create_unified_comparison env dep),
      matches = filter (\<lambda>x. bucket_of (snd x) = Matched) (create_unified_comparison env dep),
      env_only = filter (\<lambda>x. bucket_of (snd x) = Env_Only) (create_unified_comparison env dep),
      deployed_only = filter (\<lambda>x. bucket_of (snd x) = Deployed_Only) (create_unified_comparison env dep)\<rparr>"
  by (simp add: compare_versions_def Let_def fold_classify unified_distinct keys_of_def)

lemma unified_present:
  assumes "\<forall>v\<in>snd ` set dep. v \<noteq> JNull"
    and "(s, d) \<in> set (create_unified_comparison env dep)"
  shows "env_version d \<noteq> JNull \<or> deployed_version d \<noteq> JNull"
proof -
  from unified_set [OF assms(2)] show ?thesis
  proof
    assume "\<exists>v. (s, v) \<in> set env \<and> d = env_record dep s v"
    then show ?thesis by (auto simp: env_record_def split: option.splits)
  next
    assume "\<exists>d' v. (d', v) \<in> set dep \<and> d' \<notin> mapped_of env
      \<and> s = ''deployed_only_'' @ d' \<and> d = deployed_record d' v"
    then obtain d' v where "(d', v) \<in> set dep" "d = deployed_record d' v" by blast
    with assms(1) show ?thesis by (force simp: deployed_record_def)
  qed
qed

lemma bucket_spec:
  "(bucket_of d = Differing) = spec_differing d"
  "(bucket_of d = Matched) = spec_matched d"
  "(bucket_of d = Env_Only) = (spec_env_only d \<and> \<not> spec_deployed_only d)"
  "(bucket_of d = Deployed_Only) = spec_deployed_only d"
  by (auto simp: bucket_of_def spec_differing_def spec_matched_def spec_env_only_def
      spec_deployed_only_def)

lemma filter_bucket_spec:
  "filter (\<lambda>x. bucket_of (snd x) = Differing) u = filter (\<lambda>(s, d). spec_differing d) u"
  "filter (\<lambda>x. bucket_of (snd x) = Matched) u = filter (\<lambda>(s, d). spec_matched d) u"
  "filter (\<lambda>x. bucket_of (snd x) = Env_Only) u =
     filter (\<lambda>(s, d). spec_env_only d \<and> \<not> spec_deployed_only d) u"
  "filter (\<lambda>x. bucket_of (snd x) = Deployed_Only) u =
     filter (\<lambda>(s, d). spec_deployed_only d) u"
  by (simp_all add: bucket_spec case_prod_unfold)

lemma has_differences_eq:
  "snd (compare_versions dep env) =
    (differences (fst (compare_versions dep env)) \<noteq> [] \<or>
     env_only (fst (compare_versions dep env)) \<noteq> [] \<or>
     deployed_only (fst (compare_versions dep env)) \<noteq> [])"
  by (simp add: compare_versions_def Let_def)

text \<open>
  Claim C1, amended. Every record of the unified comparison lands in exactly one of the
  four buckets that \<open>compare_versions\<close> returns, and \<open>has_differences\<close> holds exactly when
  the differing, env-only or deployed-only bucket is not empty. The matched, differing and
  deployed-only buckets hold the records of these classes (in the order of the unified
  comparison); the env-only bucket holds the records whose deployed side is absent and
  whose env side is present. When no version of the deployed map is \<open>None\<close>, the env-only
  bucket holds the records whose deployed side is absent, as the claim says.
\<close>

theorem C1_buckets:
  assumes "u = create_unified_comparison env dep" and "(r, h) = compare_versions dep env"
  shows "matches r = filter (\<lambda>(s, d). spec_matched d) u
    \<and> differences r = filter (\<lambda>(s, d). spec_differing d) u
    \<and> deployed_only r = filter (\<lambda>(s, d). spec_deployed_only d) u
    \<and> env_only r = filter (\<lambda>(s, d). spec_env_only d \<and> \<not> spec_deployed_only d) u
    \<and> ((\<forall>v\<in>snd ` set dep. v \<noteq> JNull) \<longrightarrow>
          env_only r = filter (\<lambda>(s, d). spec_env_only d) u)
    \<and> (\<forall>x\<in>set u. count_list [x \<in> set (matches r), x \<in> set (differences r),
           x \<in> set (env_only r), x \<in> set (deployed_only r)] True = 1)
    \<and> (h \<longleftrightarrow> differences r \<noteq> [] \<or> env_only r \<noteq> [] \<or> deployed_only r \<noteq> [])"
proof -
  from assms(2) have r: "r = fst (compare_versions dep env)"
    and h: "h = snd (compare_versions dep env)"
    by (metis fst_conv, metis snd_conv)
  have b: "matches r = filter (\<lambda>(s, d). spec_matched d) u"
    "differences r = filter (\<lambda>(s, d). spec_differing d) u"
    "deployed_only r = filter (\<lambda>(s, d). spec_deployed_only d) u"
    "env_only r = filter (\<lambda>(s, d). spec_env_only d \<and> \<not> spec_deployed_only d) u"
    unfolding r assms(1) compare_versions_buckets by (simp_all add: filter_bucket_spec)
  have typed: "env_only r = filter (\<lambda>(s, d). spec_env_only d) u"
    if "\<forall>v\<in>snd ` set dep. v \<noteq> JNull"
  proof -
    have "(case x of (s, d) \<Rightarrow> spec_env_only d \<and> \<not> spec_deployed_only d) =
        (case x of (s, d) \<Rightarrow> spec_env_only d)" if "x \<in> set u" for x
      using unified_present [OF \<open>\<forall>v\<in>snd ` set dep. v \<noteq> JNull\<close>, of "fst x" "snd x" env] that
      unfolding assms(1)
      by (auto simp: spec_env_only_def spec_deployed_only_def case_prod_beta)
    then have "filter (\<lambda>(s, d). spec_env_only d \<and> \<not> spec_deployed_only d) u =
        filter (\<lambda>(s, d). spec_env_only d) u"
      by (intro filter_cong refl)
    with b(4) show ?thesis by simp
  qed
  have one: "count_list [x \<in> set (matches r), x \<in> set (differences r),
           x \<in> set (env_only r), x \<in> set (deployed_only r)] True = 1" if "x \<in> set u" for x
  proof -
    obtain s d where x: "x = (s, d)" by (cases x)
    from that show ?thesis
      unfolding b x
      by (auto simp: spec_differing_def spec_matched_def spec_env_only_def
          spec_deployed_only_def)
  qed
  have "h \<longleftrightarrow> differences r \<noteq> [] \<or> env_only r \<noteq> [] \<or> deployed_only r \<noteq> []"
    unfolding h r by (rule has_differences_eq)
  with b typed one show ?thesis by blast
qed

lemma example_unified:
  "create_unified_comparison example_env example_deployed =
     [(''appcd'', \<lparr>env_version = JString ''v0.65.4'', deployed_version = JString ''v2025.7.10'',
         env_name = Some ''appcd'', deployed_name = Some ''appcd''\<rparr>),
      (''llm_gateway'', \<lparr>env_version = JString ''v0.6.3'', deployed_version = JNull,
         env_name = Some ''llm_gateway'', deployed_name = None\<rparr>),
      (''iacgen'', \<lparr>env_version = JString ''v0.52.6'', deployed_version = JString ''v0.52.6'',
         env_name = Some ''iacgen'', deployed_name = Some ''iac-gen''\<rparr>),
      (''deployed_only_exporter'', \<lparr>env_version = JNull, deployed_version = JString ''v0.9.9'',
         env_name = None, deployed_name = Some ''exporter''\<rparr>)]"
  by code_simp

lemma example_compare:
  "compare_versions example_deployed example_env =
     (\<lparr>differences =
         [(''appcd'', \<lparr>env_version = JString ''v0.65.4'', deployed_version = JString ''v2025.7.10'',
            env_name = Some ''appcd'', deployed_name = Some ''appcd''\<rparr>)],
       matches =
         [(''iacgen'', \<lparr>env_version = JString ''v0.52.6'', deployed_version = JString ''v0.52.6'',
            env_name = Some ''iacgen'', deployed_name = Some ''iac-gen''\<rparr>)],
       env_only =
         [(''llm_gateway'', \<lparr>env_version = JString ''v0.6.3'', deployed_version = JNull,
            env_name = Some ''llm_gateway'', deployed_name = None\<rparr>)],
       deployed_only =
         [(''deployed_only_exporter'', \<lparr>env_version = JNull,
            deployed_version = JString ''v0.9.9'', env_name = None,
            deployed_name = Some ''exporter''\<rparr>)]\<rparr>, True)"
  by code_simp

theorem C1_buckets_witness:
  "matches (fst (compare_versions example_deployed example_env)) =
     [(''iacgen'', \<lparr>env_version = JString ''v0.52.6'', deployed_version = JString ''v0.52.6'',
        env_name = Some ''iacgen'', deployed_name = Some ''iac-gen''\<rparr>)]
   \<and> differences (fst (compare_versions example_deployed example_env)) =
     [(''appcd'', \<lparr>env_version = JString ''v0.65.4'', deployed_version = JString ''v2025.7.10'',
        env_name = Some ''appcd'', deployed_name = Some ''appcd''\<rparr>)]
   \<and> count_list
        [(''llm_gateway'', \<lparr>env_version = JString ''v0.6.3'', deployed_version = JNull,
            env_name = Some ''llm_gateway'', deployed_name = None\<rparr>)
           \<in> set (matches (fst (compare_versions example_deployed example_env))),
         (''llm_gateway'', \<lparr>env_version = JString ''v0.6.3'', deployed_version = JNull,
            env_name = Some ''llm_gateway'', deployed_name = None\<rparr>)
           \<in> set (differences (fst (compare_versions example_deployed example_env))),
         (''llm_gateway'', \<lparr>env_version = JString ''v0.6.3'', deployed_version = JNull,
            env_name = Some ''llm_gateway'', deployed_name = None\<rparr>)
           \<in> set (env_only (fst (compare_versions example_deployed example_env))),
         (''llm_gateway'', \<lparr>env_version = JString ''v0.6.3'', deployed_version = JNull,
            env_name = Some ''llm_gateway'', deployed_name = None\<rparr>)
           \<in> set (deployed_only (fst (compare_versions example_deployed example_env)))]
        True = 1
   \<and> env_only (fst (compare_versions example_deployed example_env)) =
       filter (\<lambda>(s, d). spec_env_only d)
         (create_unified_comparison example_env example_deployed)
   \<and> snd (compare_versions example_deployed example_env)"
proof -
  have "\<forall>v\<in>snd ` set example_deployed. v \<noteq> JNull"
    by (simp add: example_deployed_def)
  with C1_buckets [where env = example_env and dep = example_deployed, OF refl prod.collapse]
  have "env_only (fst (compare_versions example_deployed example_env)) =
       filter (\<lambda>(s, d). spec_env_only d)
         (create_unified_comparison example_env example_deployed)"
    by blast
  with C1_buckets [where env = example_env and dep = example_deployed, OF refl prod.collapse]
  show ?thesis
    by (simp add: example_unified example_compare spec_matched_def spec_differing_def
        spec_env_only_def spec_deployed_only_def)
qed

text \<open>
  The claim as it is written fails for a deployed map that holds the version \<open>None\<close>.
  \<open>parse_version_json\<close> stores such a version for the text
  \<^verbatim>\<open>{"x": {"version": null}}\<close>. The record of the key \<open>x\<close> then has both versions
  absent: its deployed side is absent, and it is in the deployed-only bucket and not in
  the env-only bucket.
\<close>

theorem C1_buckets_counterexample:
  \<open>parse_version_json (\<lambda>text. Inr (JObject [(''x'', JObject [(''version'', JNull)])]))
       ''{"x": {"version": null}}'' = [(''x'', JNull)]
   \<and> create_unified_comparison [] [(''x'', JNull)] =
       [(''deployed_only_x'', \<lparr>env_version = JNull, deployed_version = JNull,
           env_name = None, deployed_name = Some ''x''\<rparr>)]
   \<and> spec_env_only \<lparr>env_version = JNull, deployed_version = JNull,
           env_name = None, deployed_name = Some ''x''\<rparr>
   \<and> env_only (fst (compare_versions [(''x'', JNull)] [])) = []
   \<and> deployed_only (fst (compare_versions [(''x'', JNull)] [])) =
       [(''deployed_only_x'', \<lparr>env_version = JNull, deployed_version = JNull,
           env_name = None, deployed_name = Some ''x''\<rparr>)]\<close>
  by code_simp

lemma filter_single:
  "distinct xs \<Longrightarrow> x \<in> set xs \<Longrightarrow> \<forall>y\<in>set xs. P y \<longleftrightarrow> y = x \<Longrightarrow> filter P xs = [x]"
proof (induction xs)
  case Nil
  then show ?case by simp
next
  case (Cons a xs)
  show ?case
  proof (cases "a = x")
    case True
    with Cons.prems have "\<forall>y\<in>set xs. \<not> P y" by auto
    then have "filter P xs = []" by (simp add: filter_empty_conv)
    with True Cons.prems show ?thesis by simp
  next
    case False
    with Cons.prems Cons.IH show ?thesis by auto
  qed
qed

lemma distinct_keys_distinct: "distinct (map fst xs) \<Longrightarrow> distinct xs"
  by (simp add: distinct_map)

lemma unified_deployed_lookup:
  assumes "distinct (map fst dep)" and "(d, v) \<in> set dep" and "d \<notin> mapped_of env"
  shows "(''deployed_only_'' @ d, deployed_record d v) \<in> set (create_unified_comparison env dep)"
proof -
  have M: "fold mapped_step (map fst env) {} = mapped_of env"
    by (simp add: fold_mapped_step mapped_of_def)
  have "map_of (create_unified_comparison env dep) (''deployed_only_'' @ d) =
      Some (deployed_record d v)"
    unfolding create_unified_comparison_def Let_def M
    using assms by (rule deployed_fold_lookup)
  then show ?thesis by (rule map_of_SomeD)
qed

lemma deployed_only_records:
  assumes "distinct (map fst dep)" and "(d, v) \<in> set dep"
    and "(s, r) \<in> set (create_unified_comparison env dep)"
    and "env_version r = JNull" and "deployed_name r = Some d"
  shows "d \<notin> mapped_of env \<and> s = ''deployed_only_'' @ d \<and> r = deployed_record d v"
proof -
  from unified_set [OF assms(3)] assms(4)
  obtain d' v' where *: "(d', v') \<in> set dep" "d' \<notin> mapped_of env"
    "s = ''deployed_only_'' @ d'" "r = deployed_record d' v'"
    by (auto simp: env_record_def split: option.splits)
  with assms(5) have "d' = d" by (simp add: deployed_record_def)
  moreover from this * assms(1,2) have "v' = v"
    by (metis map_of_is_SomeI option.inject)
  ultimately show ?thesis using * by simp
qed

text \<open>
  Claim C3. For a key \<open>d\<close> of the deployed map, the deployed-only records of the unified
  comparison that carry the deployed name \<open>d\<close> are: exactly one, stored under
  \<open>deployed_only_d\<close> with both env fields absent, when no key of the env map is mapped to
  \<open>d\<close>; and none when some key of the env map is mapped to \<open>d\<close>.
\<close>

theorem C3_deployed_only:
  assumes "distinct (map fst dep)" and "(d, v) \<in> set dep"
  shows "filter (\<lambda>(s, r). spec_deployed_only r \<and> deployed_name r = Some d)
           (create_unified_comparison env dep) =
         (if \<forall>k\<in>fst ` set env. map_env_to_deployed k \<noteq> Some d
          then [(''deployed_only_'' @ d,
                 \<lparr>env_version = JNull, deployed_version = v,
                  env_name = None, deployed_name = Some d\<rparr>)]
          else [])"
proof -
  let ?P = "\<lambda>(s, r). spec_deployed_only r \<and> deployed_name r = Some d"
  let ?u = "create_unified_comparison env dep"
  let ?x = "(''deployed_only_'' @ d, deployed_record d v)"
  have only: "d \<notin> mapped_of env \<and> y = ?x" if "y \<in> set ?u" and "?P y" for y
  proof -
    obtain s r where y: "y = (s, r)" by (cases y)
    from that have "(s, r) \<in> set ?u" "env_version r = JNull" "deployed_name r = Some d"
      by (simp_all add: y spec_deployed_only_def)
    from deployed_only_records [OF assms this] show ?thesis by (simp add: y)
  qed
  have Px: "?P ?x" by (simp add: spec_deployed_only_def deployed_record_def)
  have ref: "(\<forall>k\<in>fst ` set env. map_env_to_deployed k \<noteq> Some d) \<longleftrightarrow> d \<notin> mapped_of env"
    unfolding mapped_of_def by blast
  show ?thesis
  proof (cases "d \<in> mapped_of env")
    case True
    with only have "\<forall>y\<in>set ?u. \<not> ?P y" by blast
    then have "filter ?P ?u = []" by (simp only: filter_empty_conv)
    with True show ?thesis unfolding ref by simp
  next
    case False
    have "distinct ?u" using unified_distinct by (rule distinct_keys_distinct)
    moreover have "?x \<in> set ?u" using assms False by (rule unified_deployed_lookup)
    moreover have "\<forall>y\<in>set ?u. ?P y \<longleftrightarrow> y = ?x" using only Px by blast
    ultimately have "filter ?P ?u = [?x]" by (rule filter_single)
    with False show ?thesis unfolding ref by (simp add: deployed_record_def)
  qed
qed

lemma map_env_stack_exporter: "map_env_to_deployed ''stack_exporter'' = Some ''exporter''"
  by code_simp

lemma map_env_llm_gateway: "map_env_to_deployed ''llm_gateway'' = None"
  by code_simp

theorem C3_deployed_only_witness:
  "filter (\<lambda>(s, r). spec_deployed_only r \<and> deployed_name r = Some ''exporter'')
      (create_unified_comparison [(''llm_gateway'', ''v0.6.3'')] [(''exporter'', JString ''v0.9.9'')]) =
     [(''deployed_only_exporter'',
       \<lparr>env_version = JNull, deployed_version = JString ''v0.9.9'',
        env_name = None, deployed_name = Some ''exporter''\<rparr>)]
   \<and> filter (\<lambda>(s, r). spec_deployed_only r \<and> deployed_name r = Some ''exporter'')
      (create_unified_comparison [(''stack_exporter'', ''v0.9.9'')] [(''exporter'', JString ''v0.9.9'')]) = []"
  using C3_deployed_only [of "[(''exporter'', JString ''v0.9.9'')]" "''exporter''" "JString ''v0.9.9''"
      "[(''llm_gateway'', ''v0.6.3'')]"]
    C3_deployed_only [of "[(''exporter'', JString ''v0.9.9'')]" "''exporter''" "JString ''v0.9.9''"
      "[(''stack_exporter'', ''v0.9.9'')]"]
  by (simp add: map_env_stack_exporter map_env_llm_gateway)




lemma filter_key_single:
  assumes "distinct (map fst xs)" and "map_of xs k = Some r"
  shows "filter (\<lambda>(s, r). s = k) xs = [(k, r)]"
proof (rule filter_single)
  show "distinct xs" using assms(1) by (rule distinct_keys_distinct)
  show "(k, r) \<in> set xs" using assms(2) by (rule map_of_SomeD)
  show "\<forall>y\<in>set xs. (case y of (s, r) \<Rightarrow> s = k) \<longleftrightarrow> y = (k, r)"
  proof
    fix y assume y: "y \<in> set xs"
    obtain s b where sb: "y = (s, b)" by (cases y)
    have "b = r" if "s = k"
      using assms y that unfolding sb by (metis map_of_is_SomeI option.inject)
    then show "(case y of (s, r) \<Rightarrow> s = k) \<longleftrightarrow> y = (k, r)"
      unfolding sb by auto
  qed
qed

lemma env_record_unless_overwritten:
  assumes "distinct (map fst env)" and "(k, v) \<in> set env"
    and "map_env_to_deployed k = None"
    and "\<forall>(d, w)\<in>set dep. d \<in> mapped_of env \<or> ''deployed_only_'' @ d \<noteq> k"
  shows "filter (\<lambda>(s, r). s = k) (create_unified_comparison env dep) =
     [(k, \<lparr>env_version = JString v, deployed_version = JNull,
           env_name = Some k, deployed_name = None\<rparr>)]"
proof -
  have M: "fold mapped_step (map fst env) {} = mapped_of env"
    by (simp add: fold_mapped_step mapped_of_def)
  have "map_of (create_unified_comparison env dep) k =
      map_of (fold (env_step dep) env []) k"
    unfolding create_unified_comparison_def Let_def M
    using assms(4) by (rule deployed_fold_other)
  also have "\<dots> = Some (env_record dep k v)"
    using assms(1,2) by (rule env_fold_lookup)
  finally have "filter (\<lambda>(s, r). s = k) (create_unified_comparison env dep) =
      [(k, env_record dep k v)]"
    by (rule filter_key_single [OF unified_distinct])
  with assms(3) show ?thesis by (simp add: env_record_def)
qed

lemma llm_gateway_env_only:
  "filter (\<lambda>(s, r). s = ''llm_gateway'')
       (create_unified_comparison [(''llm_gateway'', ''v0.6.3'')] dep) =
     [(''llm_gateway'', \<lparr>env_version = JString ''v0.6.3'', deployed_version = JNull,
           env_name = Some ''llm_gateway'', deployed_name = None\<rparr>)]"
  by (rule env_record_unless_overwritten) (simp_all add: map_env_llm_gateway split_beta)

text \<open>
  Claim C2. The claim promises an env-only record for every key of the env map that the
  mapping table does not map, whatever the deployed map holds. The lemma
  \<open>env_record_unless_overwritten\<close> above proves it for every key that is not
  \<open>deployed_only_d\<close> for an unreferenced key \<open>d\<close> of the deployed map. The third loop
  stores its records in the same dictionary under \<open>deployed_only_d\<close>, so for the env key
  \<open>deployed_only_x\<close> and the deployed key \<open>x\<close> it overwrites the record of the env key:
  the unified comparison then holds no record of the env side at all.
\<close>

theorem C2_env_record_overwritten:
  "map_env_to_deployed ''deployed_only_x'' = None
   \<and> create_unified_comparison [(''deployed_only_x'', ''1'')] [(''x'', JString ''2'')] =
     [(''deployed_only_x'', \<lparr>env_version = JNull, deployed_version = JString ''2'',
          env_name = None, deployed_name = Some ''x''\<rparr>)]"
  by code_simp

section \<open>Properties of the parser of \<open>version.json\<close>\<close>

lemma strip_decomp:
  "s = takeWhile is_space s @ strip s @ rev (takeWhile is_space (rev (lstrip s)))"
proof -
  have "strip s @ rev (takeWhile is_space (rev (lstrip s))) =
      rev (takeWhile is_space (rev (lstrip s)) @ dropWhile is_space (rev (lstrip s)))"
    by (simp only: strip_def rstrip_def rev_append)
  also have "\<dots> = rev (rev (lstrip s))"
    by (simp only: takeWhile_dropWhile_id)
  finally have "lstrip s = strip s @ rev (takeWhile is_space (rev (lstrip s)))" by simp
  moreover have "s = takeWhile is_space s @ lstrip s"
    by (simp add: lstrip_def)
  ultimately show ?thesis by metis
qed

lemma strip_surrounded:
  "\<exists>a b. s = a @ strip s @ b \<and> list_all is_space a \<and> list_all is_space b"
proof -
  have "list_all is_space (takeWhile is_space s)"
    by (simp add: list_all_iff) (meson set_takeWhileD)
  moreover have "list_all is_space (rev (takeWhile is_space (rev (lstrip s))))"
    by (simp add: list_all_iff) (meson set_takeWhileD)
  ultimately show ?thesis using strip_decomp [of s] by blast
qed

lemma strip_ends:
  assumes "strip s \<noteq> []"
  shows "\<not> is_space (hd (strip s))" and "\<not> is_space (last (strip s))"
proof -
  let ?t = "lstrip s"
  from assms have t: "?t \<noteq> []" by (auto simp: strip_def rstrip_def)
  then have "\<not> is_space (hd ?t)" unfolding lstrip_def by (metis hd_dropWhile)
  moreover have "?t = strip s @ rev (takeWhile is_space (rev ?t))"
    using strip_decomp [of s] by (simp add: lstrip_def) (metis same_append_eq takeWhile_dropWhile_id)
  ultimately show "\<not> is_space (hd (strip s))" using assms by (metis hd_append2)
  from assms have "dropWhile is_space (rev ?t) \<noteq> []" by (simp add: strip_def rstrip_def)
  then have "\<not> is_space (hd (dropWhile is_space (rev ?t)))" by (metis hd_dropWhile)
  then show "\<not> is_space (last (strip s))"
    using assms by (simp add: strip_def rstrip_def last_rev)
qed

text \<open>
  Claim C6. When \<open>json.loads\<close> rejects the text, \<open>parse_version_json\<close> returns the
  dictionary with the one key \<open>content\<close>, whose value is the text without the white space
  around it: the text is that value between two runs of white space, and the value
  neither starts nor ends with white space.
\<close>

theorem C6_fallback_content:
  assumes "json_loads version_content = Inl JSONDecodeError"
  shows "parse_version_json json_loads version_content =
           [(''content'', JString (strip version_content))]
       \<and> (\<exists>a b. version_content = a @ strip version_content @ b
             \<and> list_all is_space a \<and> list_all is_space b)
       \<and> (strip version_content = [] \<or>
             \<not> is_space (hd (strip version_content))
             \<and> \<not> is_space (last (strip version_content)))"
  using assms strip_surrounded [of version_content] strip_ends [of version_content]
  by (auto simp: parse_version_json_def)

theorem C6_fallback_content_witness:
  "parse_version_json (\<lambda>text. Inl JSONDecodeError) ''  v1.2.3 (build 7)  '' =
     [(''content'', JString ''v1.2.3 (build 7)'')]"
proof -
  have "strip ''  v1.2.3 (build 7)  '' = ''v1.2.3 (build 7)''" by code_simp
  with C6_fallback_content [of "\<lambda>text. Inl JSONDecodeError" "''  v1.2.3 (build 7)  ''"]
  show ?thesis by simp
qed

text \<open>
  Claim C10. When the text is valid JSON and its value is not an object,
  \<open>parse_version_json\<close> returns the empty dictionary, not the \<open>content\<close> fallback.
\<close>

theorem C10_not_an_object:
  assumes "json_loads version_content = Inr data" and "\<forall>members. data \<noteq> JObject members"
  shows "parse_version_json json_loads version_content = []"
  using assms by (cases data) (simp_all add: parse_version_json_def)

theorem C10_not_an_object_witness:
  "parse_version_json (\<lambda>text. Inr (JArray [JString ''v1'', JInt 2])) ''[\"v1\", 2]'' = []
   \<and> parse_version_json (\<lambda>text. Inr (JString ''v1'')) ''\"v1\"'' = []
   \<and> parse_version_json (\<lambda>text. Inr (JInt 42)) ''42'' = []"
  using C10_not_an_object [of "\<lambda>text. Inr (JArray [JString ''v1'', JInt 2])" "''[\"v1\", 2]''"
      "JArray [JString ''v1'', JInt 2]"]
    C10_not_an_object [of "\<lambda>text. Inr (JString ''v1'')" "''\"v1\"''" "JString ''v1''"]
    C10_not_an_object [of "\<lambda>text. Inr (JInt 42)" "''42''" "JInt 42"]
  by simp

lemma fold_item_step_flat:
  assumes "distinct (map fst m)" and "\<forall>k\<in>fst ` set m. lower k = k"
    and "fst ` set m \<inter> fst ` set acc = {}"
  shows "fold item_step (map (\<lambda>(k, v). (k, JString v)) m) acc =
           acc @ map (\<lambda>(k, v). (k, JString v)) m"
  using assms
proof (induction m arbitrary: acc)
  case Nil
  then show ?case by simp
next
  case (Cons x m)
  obtain k v where x: "x = (k, v)" by (cases x)
  from Cons.prems have k: "lower k = k" "k \<notin> fst ` set acc" "k \<notin> fst ` set m"
    by (auto simp: x)
  then have step: "item_step (k, JString v) acc = acc @ [(k, JString v)]"
    by (simp add: item_step_def update_fresh)
  from Cons.prems k have "distinct (map fst m)" "\<forall>k\<in>fst ` set m. lower k = k"
    "fst ` set m \<inter> fst ` set (acc @ [(k, JString v)]) = {}"
    by (auto simp: x)
  from Cons.IH [OF this] show ?case by (simp add: x step)
qed

text \<open>
  Claim C7, amended. \<open>parse_version_json\<close> stores every value under the lower case of its
  key. For a flat dictionary of strings whose keys are in lower case already, parsing the
  JSON text of the dictionary gives the dictionary back; \<open>json.dumps\<close> and \<open>json.loads\<close>
  are the standard library's, and the hypothesis on them is that decoding the text of the
  dictionary gives the object with the same members.
\<close>

theorem C7_round_trip_lower_keys:
  assumes "distinct (map fst m)" and "\<forall>k\<in>fst ` set m. lower k = k"
    and "json_loads (json_dumps m) = Inr (JObject (map (\<lambda>(k, v). (k, JString v)) m))"
  shows "parse_version_json json_loads (json_dumps m) = map (\<lambda>(k, v). (k, JString v)) m"
  using fold_item_step_flat [OF assms(1,2), of "[]"] assms(3)
  by (simp add: parse_version_json_def)

theorem C7_round_trip_lower_keys_witness:
  \<open>parse_version_json
     (\<lambda>text. Inr (JObject [(''appcd'', JString ''v0.65.4''), (''iac-gen'', JString ''main'')]))
     ((\<lambda>m. ''{"appcd": "v0.65.4", "iac-gen": "main"}'')
        [(''appcd'', ''v0.65.4''), (''iac-gen'', ''main'')]) =
   [(''appcd'', JString ''v0.65.4''), (''iac-gen'', JString ''main'')]\<close>
proof -
  have "lower ''appcd'' = ''appcd''" "lower ''iac-gen'' = ''iac-gen''" by code_simp+
  with C7_round_trip_lower_keys [of "[(''appcd'', ''v0.65.4''), (''iac-gen'', ''main'')]"
      "\<lambda>text. Inr (JObject [(''appcd'', JString ''v0.65.4''), (''iac-gen'', JString ''main'')])"
      \<open>\<lambda>m. ''{"appcd": "v0.65.4", "iac-gen": "main"}''\<close>]
  show ?thesis by simp
qed

text \<open>
  The claim as it is written, for every flat dictionary of strings, fails for a key with an
  upper-case letter: the text \<^verbatim>\<open>{"A": "1"}\<close> decodes to the object with the member
  \<open>A\<close>, and the result has the key \<open>a\<close>.
\<close>

theorem C7_round_trip_counterexample:
  \<open>parse_version_json (\<lambda>text. Inr (JObject [(''A'', JString ''1'')])) ''{"A": "1"}'' =
     [(''a'', JString ''1'')]
   \<and> parse_version_json (\<lambda>text. Inr (JObject [(''A'', JString ''1'')])) ''{"A": "1"}'' \<noteq>
     [(''A'', JString ''1'')]\<close>
  by code_simp

section \<open>Properties of the matcher\<close>

lemma str_paths_iff:
  "(m, r) \<in> set (str_paths ic w s) \<longleftrightarrow> s = m @ r \<and> list_all2 (lit_match ic) w m"
proof
  assume "(m, r) \<in> set (str_paths ic w s)"
  then have "length w \<le> length s" "list_all2 (lit_match ic) w (take (length w) s)"
    "m = take (length w) s" "r = drop (length w) s"
    by (auto simp: str_paths_def split: if_splits)
  then show "s = m @ r \<and> list_all2 (lit_match ic) w m" by simp
next
  assume *: "s = m @ r \<and> list_all2 (lit_match ic) w m"
  then have "length w = length m" by (auto dest: list_all2_lengthD)
  with * show "(m, r) \<in> set (str_paths ic w s)" by (simp add: str_paths_def)
qed

lemma takeWhile_prefix_length:
  "list_all cls m \<Longrightarrow> length m \<le> length (takeWhile cls (m @ r))"
  by (induction m) auto

lemma take_takeWhile_all: "k \<le> length (takeWhile cls s) \<Longrightarrow> list_all cls (take k s)"
proof (induction s arbitrary: k)
  case Nil
  then show ?case by simp
next
  case (Cons a s)
  then show ?case by (cases k) (auto split: if_splits)
qed

lemma rep_paths_iff:
  "(m, r) \<in> set (piece_paths ic (Rep cls lo hi) s) \<longleftrightarrow>
     s = m @ r \<and> piece_lang ic (Rep cls lo hi) m"
proof
  let ?n = "length (takeWhile cls s)"
  let ?mx = "case hi of None \<Rightarrow> ?n | Some h \<Rightarrow> min h ?n"
  assume "(m, r) \<in> set (piece_paths ic (Rep cls lo hi) s)"
  then obtain k where k: "lo \<le> k" "k \<le> ?mx" "m = take k s" "r = drop k s"
    by (auto simp: Let_def)
  have n: "?n \<le> length s" by (rule length_takeWhile_le)
  from k(2) have kn: "k \<le> ?n" by (cases hi) auto
  with n have "length m = k" using k(3) by simp
  moreover from kn have "list_all cls m" unfolding k(3) by (rule take_takeWhile_all)
  moreover from k(2) have "case hi of None \<Rightarrow> True | Some h \<Rightarrow> k \<le> h" by (cases hi) auto
  ultimately show "s = m @ r \<and> piece_lang ic (Rep cls lo hi) m"
    using k by (cases hi) auto
next
  let ?n = "length (takeWhile cls s)"
  assume *: "s = m @ r \<and> piece_lang ic (Rep cls lo hi) m"
  then have "length m \<le> ?n" using takeWhile_prefix_length [of cls m r] by simp
  with * have "length m \<in> set (rev [lo..<Suc (case hi of None \<Rightarrow> ?n | Some h \<Rightarrow> min h ?n)])"
    by (cases hi) auto
  moreover from * have "(m, r) = (take (length m) s, drop (length m) s)" by simp
  ultimately show "(m, r) \<in> set (piece_paths ic (Rep cls lo hi) s)"
    unfolding piece_paths.simps Let_def set_map by (rule rev_image_eqI)
qed

lemma piece_paths_iff:
  "(m, r) \<in> set (piece_paths ic pc s) \<longleftrightarrow> s = m @ r \<and> piece_lang ic pc m"
proof (cases pc)
  case (Str w)
  then show ?thesis by (simp add: str_paths_iff)
next
  case (Rep cls lo hi)
  then show ?thesis using rep_paths_iff by simp
next
  case (Alts ws)
  then show ?thesis by (auto simp: str_paths_iff)
qed

lemma seq_paths_iff:
  "(m, r) \<in> set (seq_paths ic pcs s) \<longleftrightarrow> s = m @ r \<and> seq_lang ic pcs m"
proof (induction pcs arbitrary: m s)
  case Nil
  then show ?case by auto
next
  case (Cons pc pcs)
  have "(m, r) \<in> set (seq_paths ic (pc # pcs) s) \<longleftrightarrow>
      (\<exists>m1 r1 m2. (m1, r1) \<in> set (piece_paths ic pc s)
         \<and> (m2, r) \<in> set (seq_paths ic pcs r1) \<and> m = m1 @ m2)"
    by force
  also have "\<dots> \<longleftrightarrow> (\<exists>m1 r1 m2. s = m1 @ r1 \<and> piece_lang ic pc m1
         \<and> r1 = m2 @ r \<and> seq_lang ic pcs m2 \<and> m = m1 @ m2)"
    unfolding piece_paths_iff Cons.IH by blast
  also have "\<dots> \<longleftrightarrow> s = m @ r \<and> seq_lang ic (pc # pcs) m" (is "?L \<longleftrightarrow> ?R")
  proof
    assume ?L
    then show ?R by auto
  next
    assume ?R
    then obtain m1 m2 where "m = m1 @ m2" "piece_lang ic pc m1" "seq_lang ic pcs m2" "s = m @ r"
      by auto
    then have "s = m1 @ (m2 @ r) \<and> piece_lang ic pc m1 \<and> m2 @ r = m2 @ r
        \<and> seq_lang ic pcs m2 \<and> m = m1 @ m2"
      by simp
    then show ?L by blast
  qed
  finally show ?case .
qed

lemma paths_iff:
  "(gs, r) \<in> set (paths ic its s) \<longleftrightarrow> (\<exists>m. s = m @ r \<and> items_lang ic its m gs)"
proof (induction ic its s arbitrary: gs rule: paths.induct)
  case (1 ic s)
  then show ?case by auto
next
  case (2 ic pc its s)
  have "(gs, r) \<in> set (paths ic (Plain pc # its) s) \<longleftrightarrow>
      (\<exists>m1 r1. (m1, r1) \<in> set (piece_paths ic pc s) \<and> (gs, r) \<in> set (paths ic its r1))"
    by force
  also have "\<dots> \<longleftrightarrow> (\<exists>m1 r1. s = m1 @ r1 \<and> piece_lang ic pc m1
      \<and> (\<exists>m2. r1 = m2 @ r \<and> items_lang ic its m2 gs))"
    using "2.IH" by (metis piece_paths_iff)
  also have "\<dots> \<longleftrightarrow> (\<exists>m. s = m @ r \<and> items_lang ic (Plain pc # its) m gs)"
    (is "?L \<longleftrightarrow> ?R")
  proof
    assume ?L
    then obtain m1 m2 where "s = (m1 @ m2) @ r" "piece_lang ic pc m1" "items_lang ic its m2 gs"
      by auto
    then have "s = (m1 @ m2) @ r \<and> items_lang ic (Plain pc # its) (m1 @ m2) gs" by auto
    then show ?R by blast
  next
    assume ?R
    then obtain m1 m2 where "s = m1 @ (m2 @ r)" "piece_lang ic pc m1" "items_lang ic its m2 gs"
      by auto
    then show ?L by blast
  qed
  finally show ?case .
next
  case (3 ic pcs its s)
  have "(gs, r) \<in> set (paths ic (Group pcs # its) s) \<longleftrightarrow>
      (\<exists>m1 r1 gs'. (m1, r1) \<in> set (seq_paths ic pcs s) \<and> (gs', r) \<in> set (paths ic its r1)
         \<and> gs = m1 # gs')"
    by force
  also have "\<dots> \<longleftrightarrow> (\<exists>m1 r1 gs'. s = m1 @ r1 \<and> seq_lang ic pcs m1
      \<and> (\<exists>m2. r1 = m2 @ r \<and> items_lang ic its m2 gs') \<and> gs = m1 # gs')"
    using "3.IH" by (metis seq_paths_iff)
  also have "\<dots> \<longleftrightarrow> (\<exists>m. s = m @ r \<and> items_lang ic (Group pcs # its) m gs)"
    (is "?L \<longleftrightarrow> ?R")
  proof
    assume ?L
    then obtain m1 m2 gs' where "s = (m1 @ m2) @ r" "seq_lang ic pcs m1"
      "items_lang ic its m2 gs'" "gs = m1 # gs'"
      by auto
    then have "s = (m1 @ m2) @ r \<and> items_lang ic (Group pcs # its) (m1 @ m2) gs" by auto
    then show ?R by blast
  next
    assume ?R
    then obtain m1 m2 gs' where "s = m1 @ (m2 @ r)" "seq_lang ic pcs m1"
      "items_lang ic its m2 gs'" "gs = m1 # gs'"
      by auto
    then show ?L by blast
  qed
  finally show ?case .
qed

lemma re_match_SomeD:
  "re_match ic pat s = Some (gs, r) \<Longrightarrow> \<exists>m. s = m @ r \<and> items_lang ic pat m gs"
proof -
  assume "re_match ic pat s = Some (gs, r)"
  then have "(gs, r) \<in> set (paths ic pat s)"
    by (auto simp: re_match_def split: list.splits)
  then show ?thesis by (simp add: paths_iff)
qed

lemma re_match_None_iff:
  "re_match ic pat s = None \<longleftrightarrow> (\<forall>gs m r. s = m @ r \<longrightarrow> \<not> items_lang ic pat m gs)"
proof -
  have "re_match ic pat s = None \<longleftrightarrow> paths ic pat s = []"
    by (auto simp: re_match_def split: list.splits)
  also have "\<dots> \<longleftrightarrow> (\<forall>gs r. (gs, r) \<notin> set (paths ic pat s))"
    by (cases "paths ic pat s") auto
  also have "\<dots> \<longleftrightarrow> (\<forall>gs m r. s = m @ r \<longrightarrow> \<not> items_lang ic pat m gs)"
    unfolding paths_iff by blast
  finally show ?thesis .
qed

section \<open>Properties of the parser of the \<open>.env\<close> text\<close>

lemma items_lang_groups:
  "items_lang ic its m gs \<Longrightarrow> list_all2 (seq_lang ic) (groups_of its) gs"
  by (induction ic its m gs rule: items_lang.induct) auto

lemma version_patterns_groups:
  "p \<in> set version_patterns \<Longrightarrow> \<exists>g. groups_of p = [g, [Plus is_value_char]]"
  by (auto simp: version_patterns_def)

lemma version_match_groups:
  assumes "p \<in> set version_patterns" and "re_match True p line = Some (gs, r)"
  shows "\<exists>service val. gs = [service, val] \<and> val \<noteq> [] \<and> list_all is_value_char val"
proof -
  from assms(2) obtain m where "items_lang True p m gs" by (auto dest: re_match_SomeD)
  then have "list_all2 (seq_lang True) (groups_of p) gs" by (rule items_lang_groups)
  moreover from assms(1) obtain g where "groups_of p = [g, [Plus is_value_char]]"
    by (auto dest: version_patterns_groups)
  ultimately obtain service val where "gs = [service, val]" "seq_lang True [Plus is_value_char] val"
    by (auto simp: list_all2_Cons1)
  then show ?thesis by auto
qed

lemma strip_no_space:
  assumes "list_all (\<lambda>c. \<not> is_space c) s"
  shows "strip s = s"
proof -
  have "dropWhile is_space xs = xs" if "list_all (\<lambda>c. \<not> is_space c) xs" for xs
    using that by (cases xs) auto
  from this [of s] this [of "rev s"] assms show ?thesis
    by (simp add: strip_def lstrip_def rstrip_def list_all_iff)
qed

lemma strip_value: "list_all is_value_char v \<Longrightarrow> strip v = v"
  by (rule strip_no_space) (auto simp: list_all_iff is_value_char_def)

lemma try_patterns_none:
  "\<forall>p\<in>set ps. re_match True p line = None \<Longrightarrow> try_patterns ps line versions = versions"
  by (induction ps) auto


lemma try_patterns_cases:
  "try_patterns ps line versions = versions \<or>
   (\<exists>p\<in>set ps. \<exists>gs r. re_match True p line = Some (gs, r) \<and> length gs = 2
      \<and> try_patterns ps line versions =
          AList.update (lower (gs ! 0)) (strip (gs ! 1)) versions)"
proof (induction ps)
  case Nil
  then show ?case by simp
next
  case (Cons q ps)
  show ?case
  proof (cases "re_match True q line")
    case None
    with Cons show ?thesis by auto
  next
    case (Some x)
    obtain gs r where x: "x = (gs, r)" by (cases x)
    show ?thesis
    proof (cases "length gs = 2")
      case True
      with Some x show ?thesis by (auto simp: Let_def)
    next
      case False
      with Some x Cons show ?thesis by auto
    qed
  qed
qed


lemma split_nonempty: "split sep s \<noteq> []"
  by (induction s) (auto split: list.splits)

lemma process_line_cases:
  "process_line raw versions = versions \<or>
   (\<exists>k v. line_entry raw k v \<and> process_line raw versions = AList.update k v versions)"
proof (cases "strip raw = [] \<or> startswith (strip raw) ''#''")
  case True
  then show ?thesis by (auto simp: process_line_def)
next
  case False
  then have pl: "process_line raw versions = try_patterns version_patterns (strip raw) versions"
    by (auto simp: process_line_def)
  from try_patterns_cases [of version_patterns "strip raw" versions]
  show ?thesis
  proof
    assume "try_patterns version_patterns (strip raw) versions = versions"
    with pl show ?thesis by simp
  next
    assume "\<exists>p\<in>set version_patterns. \<exists>gs r. re_match True p (strip raw) = Some (gs, r)
      \<and> length gs = 2
      \<and> try_patterns version_patterns (strip raw) versions =
          AList.update (lower (gs ! 0)) (strip (gs ! 1)) versions"
    then obtain p gs r where p: "p \<in> set version_patterns"
      and m: "re_match True p (strip raw) = Some (gs, r)"
      and t: "try_patterns version_patterns (strip raw) versions =
          AList.update (lower (gs ! 0)) (strip (gs ! 1)) versions"
      by blast
    from version_match_groups [OF p m] obtain service val where
      gs: "gs = [service, val]" and val: "list_all is_value_char val" by blast
    from val have "strip val = val" by (rule strip_value)
    with t gs pl have "process_line raw versions = AList.update (lower service) val versions"
      by simp
    moreover from p m gs False have "line_entry raw (lower service) val"
      unfolding line_entry_def by blast
    ultimately show ?thesis by blast
  qed
qed

lemma fold_process_line_set:
  "(k, v) \<in> set (fold process_line lines acc) \<Longrightarrow>
     (k, v) \<in> set acc \<or> (\<exists>raw\<in>set lines. line_entry raw k v)"
proof (induction lines arbitrary: acc)
  case Nil
  then show ?case by simp
next
  case (Cons raw lines)
  from Cons.prems have "(k, v) \<in> set (fold process_line lines (process_line raw acc))" by simp
  from Cons.IH [OF this] show ?case
  proof
    assume in_step: "(k, v) \<in> set (process_line raw acc)"
    from process_line_cases [of raw acc] show ?thesis
    proof
      assume "process_line raw acc = acc"
      with in_step show ?thesis by simp
    next
      assume "\<exists>k' v'. line_entry raw k' v' \<and> process_line raw acc = AList.update k' v' acc"
      then obtain k' v' where e: "line_entry raw k' v'"
        and u: "process_line raw acc = AList.update k' v' acc" by blast
      from in_step u set_update_subset [of k' v' acc]
      have "(k, v) = (k', v') \<or> (k, v) \<in> set acc" by auto
      with e show ?thesis by auto
    qed
  next
    assume "\<exists>raw\<in>set lines. line_entry raw k v"
    then show ?thesis by auto
  qed
qed

text \<open>
  Claim C8. \<open>parse_env_content\<close> is a total function that returns a dictionary for every
  text. A line that is empty, a comment or matched by no pattern leaves the dictionary as
  it is, and every entry of the result comes from a line that is neither empty nor a
  comment and that a pattern of the list matches.
\<close>

theorem C8_skipped_lines:
  "(strip raw = [] \<or> startswith (strip raw) ''#''
      \<or> (\<forall>p\<in>set version_patterns. re_match True p (strip raw) = None)
    \<longrightarrow> process_line raw versions = versions)
   \<and> ((k, v) \<in> set (parse_env_content env_content) \<longrightarrow>
        (\<exists>raw\<in>set (split (CHR 0x0A) env_content). \<exists>p\<in>set version_patterns. \<exists>service rest.
           strip raw \<noteq> [] \<and> \<not> startswith (strip raw) ''#''
           \<and> re_match True p (strip raw) = Some ([service, v], rest) \<and> k = lower service))"
proof (intro conjI impI)
  assume "strip raw = [] \<or> startswith (strip raw) ''#''
      \<or> (\<forall>p\<in>set version_patterns. re_match True p (strip raw) = None)"
  then show "process_line raw versions = versions"
    by (auto simp: process_line_def Let_def try_patterns_none)
next
  assume "(k, v) \<in> set (parse_env_content env_content)"
  then have "\<exists>raw\<in>set (split (CHR 0x0A) env_content). line_entry raw k v"
    unfolding parse_env_content_def by (auto dest: fold_process_line_set)
  then show "\<exists>raw\<in>set (split (CHR 0x0A) env_content). \<exists>p\<in>set version_patterns. \<exists>service rest.
           strip raw \<noteq> [] \<and> \<not> startswith (strip raw) ''#''
           \<and> re_match True p (strip raw) = Some ([service, v], rest) \<and> k = lower service"
    unfolding line_entry_def .
qed









lemma ex_unmatched:
  "list_all (\<lambda>p. re_match True p ''nothing to see here'' = None) version_patterns"
  by code_simp

lemma ex_strips:
  "strip ''   '' = []" "strip ''  # FOO_VERSION=1'' = ''# FOO_VERSION=1''"
  "startswith ''# FOO_VERSION=1'' ''#''" "strip ''nothing to see here'' = ''nothing to see here''"
  by code_simp+

lemma ex_content:
  "parse_env_content (''# FOO_VERSION=1'' @ [CHR 0x0A] @ ''BAR_TAG=v3'' @ [CHR 0x0A] @ ''nothing'')
     = [(''bar'', ''v3'')]"
  by code_simp

theorem C8_skipped_lines_witness:
  "process_line ''   '' [(''foo'', ''1'')] = [(''foo'', ''1'')]
   \<and> process_line ''  # FOO_VERSION=1'' [(''foo'', ''1'')] = [(''foo'', ''1'')]
   \<and> process_line ''nothing to see here'' [(''foo'', ''1'')] = [(''foo'', ''1'')]
   \<and> (\<exists>raw\<in>set (split (CHR 0x0A)
            (''# FOO_VERSION=1'' @ [CHR 0x0A] @ ''BAR_TAG=v3'' @ [CHR 0x0A] @ ''nothing'')).
         \<exists>p\<in>set version_patterns. \<exists>service rest.
           strip raw \<noteq> [] \<and> \<not> startswith (strip raw) ''#''
           \<and> re_match True p (strip raw) = Some ([service, ''v3''], rest)
           \<and> ''bar'' = lower service)"
proof -
  note skip = C8_skipped_lines [THEN conjunct1, THEN mp]
  note entry = C8_skipped_lines [THEN conjunct2, THEN mp]
  have "process_line ''   '' [(''foo'', ''1'')] = [(''foo'', ''1'')]"
    by (rule skip) (simp add: ex_strips)
  moreover have "process_line ''  # FOO_VERSION=1'' [(''foo'', ''1'')] = [(''foo'', ''1'')]"
    by (rule skip) (simp add: ex_strips)
  moreover have "process_line ''nothing to see here'' [(''foo'', ''1'')] = [(''foo'', ''1'')]"
    by (rule skip) (use ex_unmatched in \<open>simp add: ex_strips list_all_iff\<close>)
  moreover have "(''bar'', ''v3'') \<in> set (parse_env_content
      (''# FOO_VERSION=1'' @ [CHR 0x0A] @ ''BAR_TAG=v3'' @ [CHR 0x0A] @ ''nothing''))"
    unfolding ex_content by simp
  note entry [OF this]
  ultimately show ?thesis by blast
qed

section \<open>Properties of the ticket extractor\<close>

lemma list_all2_lit_exact: "list_all2 (lit_match False) w m \<longleftrightarrow> m = w"
proof -
  have "lit_match False = (\<lambda>p c. p = c)" by (auto simp: lit_match_def fun_eq_iff)
  then show ?thesis by (auto simp: list_all2_eq [symmetric])
qed

lemma ticket_seq_lang:
  "seq_lang False [Rep is_upper_AZ 2 (Some 6), Str ''-'', Rep is_digit 1 (Some 6)] t \<longleftrightarrow>
     is_ticket t"
  unfolding is_ticket_def
  by (simp add: list_all2_lit_exact) blast

lemma ticket_items_lang:
  "items_lang False ticket_pattern m gs \<longleftrightarrow>
     (\<exists>t. gs = [t] \<and> m = ''['' @ t @ '']'' \<and> is_ticket t)"
  unfolding ticket_pattern_def items_lang.simps ticket_seq_lang piece_lang.simps
    list_all2_lit_exact
  by auto

lemma ticket_match_SomeD:
  assumes "re_match False ticket_pattern s = Some (gs, r)"
  shows "\<exists>t. gs = [t] \<and> s = ''['' @ t @ '']'' @ r \<and> is_ticket t"
  using re_match_SomeD [OF assms] unfolding ticket_items_lang by auto

lemma ticket_match_NoneD:
  assumes "re_match False ticket_pattern s = None"
  shows "\<not> (\<exists>t r. s = ''['' @ t @ '']'' @ r \<and> is_ticket t)"
proof
  assume "\<exists>t r. s = ''['' @ t @ '']'' @ r \<and> is_ticket t"
  then obtain t r where "s = (''['' @ t @ '']'') @ r" "items_lang False ticket_pattern (''['' @ t @ '']'') [t]"
    unfolding ticket_items_lang by auto
  with assms show False unfolding re_match_None_iff by blast
qed

lemma bracket_chars:
  "\<not> is_upper_AZ (CHR ''['')" "\<not> is_upper_AZ (CHR '']'')"
  "\<not> is_digit (CHR ''['')" "\<not> is_digit (CHR '']'')"
  by code_simp+

lemma ticket_no_brackets:
  assumes "is_ticket t"
  shows "CHR ''['' \<notin> set t" and "CHR '']'' \<notin> set t"
  using assms bracket_chars unfolding is_ticket_def list_all_iff by auto

lemma ticket_unique:
  assumes "t @ CHR '']'' # r = t' @ CHR '']'' # r'"
    and "CHR '']'' \<notin> set t" and "CHR '']'' \<notin> set t'"
  shows "t = t'"
proof -
  have "takeWhile (\<lambda>c. c \<noteq> CHR '']'') (u @ CHR '']'' # v) = u" if "CHR '']'' \<notin> set u" for u v
    using that by (induction u) auto
  from this [OF assms(2), of r] this [OF assms(3), of r'] assms(1) show ?thesis by simp
qed

lemma later_ticket_in_rest:
  assumes "t @ CHR '']'' # rest = b @ CHR ''['' # u" and "CHR ''['' \<notin> set t"
  shows "\<exists>b'. rest = b' @ CHR ''['' # u"
proof -
  from assms(1) obtain us where
    "(t = b @ us \<and> us @ CHR '']'' # rest = CHR ''['' # u) \<or>
     (t @ us = b \<and> CHR '']'' # rest = us @ CHR ''['' # u)"
    unfolding append_eq_append_conv2 by blast
  then show ?thesis
  proof
    assume *: "t = b @ us \<and> us @ CHR '']'' # rest = CHR ''['' # u"
    show ?thesis
    proof (cases us)
      case Nil
      with * show ?thesis by simp
    next
      case (Cons c cs)
      with * have "c = CHR ''[''" "c \<in> set t" by auto
      with assms(2) show ?thesis by simp
    qed
  next
    assume *: "t @ us = b \<and> CHR '']'' # rest = us @ CHR ''['' # u"
    show ?thesis
    proof (cases us)
      case Nil
      with * show ?thesis by simp
    next
      case (Cons c cs)
      with * have "rest = cs @ CHR ''['' # u" by simp
      then show ?thesis by blast
    qed
  qed
qed

lemma bracketed_after_match:
  assumes "is_ticket t"
  shows "bracketed_tickets (''['' @ t @ '']'' @ rest) = insert t (bracketed_tickets rest)"
proof (intro set_eqI iffI)
  fix x assume "x \<in> bracketed_tickets (''['' @ t @ '']'' @ rest)"
  then obtain b a where x: "is_ticket x" and eq: "''['' @ t @ '']'' @ rest = b @ ''['' @ x @ '']'' @ a"
    unfolding bracketed_tickets_def by blast
  show "x \<in> insert t (bracketed_tickets rest)"
  proof (cases b)
    case Nil
    with eq have "t @ CHR '']'' # rest = x @ CHR '']'' # a" by simp
    then have "t = x" using ticket_no_brackets(2) [OF assms] ticket_no_brackets(2) [OF x]
      by (rule ticket_unique)
    then show ?thesis by simp
  next
    case (Cons c b')
    with eq have "t @ CHR '']'' # rest = b' @ CHR ''['' # (x @ '']'' @ a)" by simp
    from later_ticket_in_rest [OF this ticket_no_brackets(1) [OF assms]]
    obtain b'' where "rest = b'' @ ''['' @ x @ '']'' @ a" by auto
    with x show ?thesis unfolding bracketed_tickets_def by blast
  qed
next
  fix x assume "x \<in> insert t (bracketed_tickets rest)"
  then show "x \<in> bracketed_tickets (''['' @ t @ '']'' @ rest)"
  proof
    assume "x = t"
    with assms have "is_ticket x \<and> ''['' @ t @ '']'' @ rest = [] @ ''['' @ x @ '']'' @ rest"
      by simp
    then show ?thesis unfolding bracketed_tickets_def by blast
  next
    assume "x \<in> bracketed_tickets rest"
    then obtain b a where "is_ticket x" "rest = b @ ''['' @ x @ '']'' @ a"
      unfolding bracketed_tickets_def by blast
    then have "is_ticket x \<and> ''['' @ t @ '']'' @ rest = (''['' @ t @ '']'' @ b) @ ''['' @ x @ '']'' @ a"
      by simp
    then show ?thesis unfolding bracketed_tickets_def by blast
  qed
qed

lemma bracketed_after_failure:
  assumes "\<not> (\<exists>t r. c # cs = ''['' @ t @ '']'' @ r \<and> is_ticket t)"
  shows "bracketed_tickets (c # cs) = bracketed_tickets cs"
proof (intro set_eqI iffI)
  fix x assume "x \<in> bracketed_tickets (c # cs)"
  then obtain b a where x: "is_ticket x" and eq: "c # cs = b @ ''['' @ x @ '']'' @ a"
    unfolding bracketed_tickets_def by blast
  show "x \<in> bracketed_tickets cs"
  proof (cases b)
    case Nil
    with eq x assms show ?thesis by auto
  next
    case (Cons c' b')
    with eq have "cs = b' @ ''['' @ x @ '']'' @ a" by simp
    with x show ?thesis unfolding bracketed_tickets_def by blast
  qed
next
  fix x assume "x \<in> bracketed_tickets cs"
  then obtain b a where "is_ticket x" "cs = b @ ''['' @ x @ '']'' @ a"
    unfolding bracketed_tickets_def by blast
  then have "is_ticket x \<and> c # cs = (c # b) @ ''['' @ x @ '']'' @ a" by simp
  then show "x \<in> bracketed_tickets (c # cs)" unfolding bracketed_tickets_def by blast
qed

lemma bracketed_empty: "bracketed_tickets [] = {}"
  unfolding bracketed_tickets_def by simp

lemma findall_tickets:
  "set (map (\<lambda>groups. groups ! 0) (findall False ticket_pattern s)) = bracketed_tickets s"
proof (induction s rule: length_induct)
  case (1 s)
  show ?case
  proof (cases "re_match False ticket_pattern s")
    case None
    show ?thesis
    proof (cases s)
      case Nil
      with None show ?thesis by (simp add: bracketed_empty)
    next
      case (Cons c cs)
      from None have "\<not> (\<exists>t r. c # cs = ''['' @ t @ '']'' @ r \<and> is_ticket t)"
        unfolding Cons by (rule ticket_match_NoneD)
      then have "bracketed_tickets (c # cs) = bracketed_tickets cs"
        by (rule bracketed_after_failure)
      moreover have "findall False ticket_pattern s = findall False ticket_pattern cs"
        using None Cons by simp
      moreover have "set (map (\<lambda>groups. groups ! 0) (findall False ticket_pattern cs)) =
          bracketed_tickets cs"
        using 1 Cons by simp
      ultimately show ?thesis using Cons by simp
    qed
  next
    case (Some x)
    obtain gs rest where x: "x = (gs, rest)" by (cases x)
    from Some x obtain t where gs: "gs = [t]" and s: "s = ''['' @ t @ '']'' @ rest"
      and t: "is_ticket t"
      by (auto dest: ticket_match_SomeD)
    from s have shorter: "length rest < length s" by simp
    then have "findall False ticket_pattern s = [t] # findall False ticket_pattern rest"
      using Some x gs by simp
    moreover have "set (map (\<lambda>groups. groups ! 0) (findall False ticket_pattern rest)) =
        bracketed_tickets rest"
      using 1 shorter by simp
    moreover have "bracketed_tickets s = insert t (bracketed_tickets rest)"
      unfolding s using t by (rule bracketed_after_match)
    ultimately show ?thesis by simp
  qed
qed

lemma fold_insert_set: "fold insert xs A = set xs \<union> A"
  by (induction xs arbitrary: A) auto

lemma extract_tickets_eq: "extract_tickets_from_text text = bracketed_tickets text"
  unfolding extract_tickets_from_text_def Let_def fold_insert_set
  using findall_tickets [of "text"] by simp

lemma example_findall:
  "findall False ticket_pattern
     ''fix: resolve issue [AB-123] and [ABCD-4567] duplicate [AB-123]'' =
   [[''AB-123''], [''ABCD-4567''], [''AB-123'']]"
  by code_simp

lemma example_findall_none:
  "findall False ticket_pattern ''chore: bump deps [ab-12] [A-1] [ABC-1234567] AB-1'' = []"
  by code_simp

text \<open>
  Claim C5. For every text, \<open>extract_tickets_from_text\<close> returns the set of the tickets
  that stand in the text between square brackets, a ticket being 2 to 6 upper-case
  letters, a hyphen and 1 to 6 digits; it returns the empty set when there is none; and on
  the text of the specification's example it returns the two tickets \<open>AB-123\<close> and
  \<open>ABCD-4567\<close>.
\<close>

theorem C5_ticket_extraction:
  "extract_tickets_from_text text = bracketed_tickets text
   \<and> (bracketed_tickets text = {} \<longrightarrow> extract_tickets_from_text text = {})
   \<and> extract_tickets_from_text
        ''fix: resolve issue [AB-123] and [ABCD-4567] duplicate [AB-123]'' =
       {''AB-123'', ''ABCD-4567''}"
proof (intro conjI impI)
  show eq: "extract_tickets_from_text text = bracketed_tickets text"
    by (rule extract_tickets_eq)
  show "extract_tickets_from_text text = {}" if "bracketed_tickets text = {}"
    using that eq by simp
  show "extract_tickets_from_text
        ''fix: resolve issue [AB-123] and [ABCD-4567] duplicate [AB-123]'' =
       {''AB-123'', ''ABCD-4567''}"
    unfolding extract_tickets_from_text_def Let_def example_findall by auto
qed

theorem C5_ticket_extraction_witness:
  "bracketed_tickets ''chore: bump deps [ab-12] [A-1] [ABC-1234567] AB-1'' = {}
   \<and> extract_tickets_from_text ''chore: bump deps [ab-12] [A-1] [ABC-1234567] AB-1'' = {}"
proof -
  have "extract_tickets_from_text ''chore: bump deps [ab-12] [A-1] [ABC-1234567] AB-1'' = {}"
    unfolding extract_tickets_from_text_def Let_def example_findall_none by simp
  with C5_ticket_extraction [of "''chore: bump deps [ab-12] [A-1] [ABC-1234567] AB-1''"]
  show ?thesis by simp
qed

end
